theory Spec2Isabelle
  imports Main "HOL-Library.AList" "HOL-Library.Word" "HOL-Library.Code_Target_Numeral"
begin

section \<open>The walkie daemon: data model\<close>

text \<open>
  The daemon (\<^verbatim>\<open>class WalkieDaemon\<close>) is one object mutated by event handlers that run
  one at a time on the Node event loop. Each handler becomes a function from state to
  state; every point where the source yields to the loop (\<^verbatim>\<open>await\<close> on the mesh, an armed
  timer) becomes a pending entry of the state that a later event resumes.

  Text that the daemon measures (message payloads, the unparsed buffer of a peer and its
  lines) is a JavaScript string: a list of UTF-16 code units, \<^verbatim>\<open>x.length\<close> being \<open>length x\<close>
  and \<^verbatim>\<open>Buffer.byteLength(x)\<close> the length of its UTF-8 encoding. Names that are only compared
  or copied (channel names, secrets, topics, peer keys, daemon ids) are plain strings.
  Requests and peer records are taken as already typed the way the wire protocol types
  them (channel, topic and data are strings, a timeout is a whole number of seconds). The
  framing of local requests (\<^verbatim>\<open>_onIPC\<close>) and the start-up and shutdown of the process are
  not modelled: \<^verbatim>\<open>_exec\<close> is given the parsed request, and after \<^verbatim>\<open>stop\<close> the model goes on
  where the process exits, so it reaches at least the states the daemon does.
\<close>

type_synonym jstring = "16 word list"

text \<open>\<^verbatim>\<open>Buffer.byteLength(x)\<close> for a string \<open>x\<close>: one byte for a code unit below \<open>0x80\<close>, two
  below \<open>0x800\<close>, four for a surrogate pair, three for any other unit (a lone surrogate
  is encoded as \<open>U+FFFD\<close>).\<close>

definition unit_bytes :: "16 word \<Rightarrow> nat" where
  "unit_bytes u = (if u < 0x80 then 1 else if u < 0x800 then 2 else 3)"

definition high_surrogate :: "16 word \<Rightarrow> bool" where
  "high_surrogate u \<longleftrightarrow> 0xD800 \<le> u \<and> u \<le> 0xDBFF"

definition low_surrogate :: "16 word \<Rightarrow> bool" where
  "low_surrogate u \<longleftrightarrow> 0xDC00 \<le> u \<and> u \<le> 0xDFFF"

fun byteLength :: "jstring \<Rightarrow> nat" where
  "byteLength [] = 0"
| "byteLength [u] = unit_bytes u"
| "byteLength (u # v # us) =
     (if high_surrogate u \<and> low_surrogate v then 4 + byteLength us
      else unit_bytes u + byteLength (v # us))"

definition MAX_PEER_BUFFER :: nat where
  "MAX_PEER_BUFFER = 1024 * 1024"

definition MAX_MESSAGE_SIZE :: nat where
  "MAX_MESSAGE_SIZE = 256 * 1024"

text \<open>A buffered message entry: \<^verbatim>\<open>{ from, data, ts }\<close>.\<close>

record entry =
  e_from :: string
  e_data :: jstring
  e_ts :: int

text \<open>
  A waiter is the closure \<^verbatim>\<open>(msgs) => { clearTimeout(timer); reply({ ok: true, messages: msgs }) }\<close>.
  It captures its timer and the socket of the request; two closures are the same object
  exactly when they were made by the same \<^verbatim>\<open>read\<close>, so the timer handle identifies it.
\<close>

record waiter =
  wid :: nat
  w_sock :: nat

text \<open>A channel object: \<^verbatim>\<open>{ topicHex, discovery, peers, messages, waiters }\<close>.
  \<^verbatim>\<open>peers\<close> is a JS \<^verbatim>\<open>Set\<close>: a duplicate-free list in insertion order.\<close>

record channel =
  topicHex :: string
  discovery :: nat
  ch_peers :: "string list"
  messages :: "entry list"
  waiters :: "waiter list"

text \<open>A peer object \<^verbatim>\<open>{ conn, channels, buf, knownTopics }\<close> together with the
  \<^verbatim>\<open>remoteKey\<close> its handlers close over. \<^verbatim>\<open>knownTopics\<close> is absent until the first hello.\<close>

record peer =
  remoteKey :: string
  conn_writable :: bool
  conn_destroyed :: bool
  p_channels :: "string list"
  buf :: jstring
  knownTopics :: "string list option"

text \<open>Records of the peer wire protocol, as \<^verbatim>\<open>JSON.parse\<close> yields them and
  \<^verbatim>\<open>JSON.stringify\<close> takes them. An absent \<^verbatim>\<open>id\<close> is the empty string (both are falsy).\<close>

datatype frame =
    FHello "string list" string
  | FMsg string jstring string int
  | FOther

datatype error =
    MessageTooLarge
  | NotInChannel string
  | UnknownAction string
  | Thrown string

text \<open>What \<^verbatim>\<open>reply\<close> writes to the requesting socket.\<close>

datatype reply =
    OkChannel string
  | OkDelivered nat
  | OkMessages "entry list"
  | OkStatus "(string \<times> nat \<times> nat) list" string
  | Ok
  | Err error

text \<open>A parsed local request \<^verbatim>\<open>{ action, ... }\<close>.\<close>

datatype cmd =
    Join string string
  | Send string jstring
  | Read string bool "int option"
  | Leave string
  | Status
  | Ping
  | Stop
  | Unknown string

text \<open>A timer armed by \<^verbatim>\<open>setTimeout\<close> in the \<^verbatim>\<open>read\<close> case: the channel object and the
  socket its callback closes over, and the delay in milliseconds it was armed with.\<close>

record timer =
  t_ch :: nat
  t_sock :: nat
  t_delay :: int

text \<open>A \<^verbatim>\<open>join\<close> suspended at \<^verbatim>\<open>await discovery.flushed()\<close> and a \<^verbatim>\<open>leave\<close> suspended at
  \<^verbatim>\<open>await ch.discovery.destroy()\<close>.\<close>

record pending_join =
  j_name :: string
  j_topic :: string
  j_sock :: nat

record pending_leave =
  l_name :: string
  l_sock :: nat

datatype mesh_call = MeshJoin nat string | MeshDestroy nat

text \<open>
  The daemon. \<^verbatim>\<open>this.channels\<close> and \<^verbatim>\<open>this.peers\<close> are JS \<^verbatim>\<open>Map\<close>s (association lists in
  insertion order) from a name to an object; the objects live in \<open>heap\<close> and \<open>pstore\<close>
  because timers and connection handlers keep references to them after the map entry is
  gone or replaced. \<open>out\<close> logs the replies written to local sockets, \<open>wire\<close> the records
  written to peer connections, \<open>mesh\<close> the calls made on the mesh substrate.
\<close>

record daemon =
  daemon_id :: string
  channels :: "(string \<times> nat) list"
  heap :: "nat \<Rightarrow> channel option"
  peers :: "(string \<times> nat) list"
  pstore :: "nat \<Rightarrow> peer option"
  timers :: "(nat \<times> timer) list"
  joins :: "(nat \<times> pending_join) list"
  leaves :: "(nat \<times> pending_leave) list"
  mesh :: "mesh_call list"
  out :: "(nat \<times> reply) list"
  wire :: "(nat \<times> frame) list"
  next_id :: nat
  stopping :: bool

text \<open>The two library functions the daemon is given: \<^verbatim>\<open>deriveTopic\<close> followed by
  \<^verbatim>\<open>toString('hex')\<close> (\<open>Inl\<close> the message of the error it throws), and \<^verbatim>\<open>JSON.parse\<close> on a
  peer line (\<open>None\<close> when it throws).\<close>

record env =
  deriveTopic :: "string \<Rightarrow> string \<Rightarrow> string + string"
  parse :: "jstring \<Rightarrow> frame option"

definition init :: "string \<Rightarrow> daemon" where
  "init i = \<lparr> daemon_id = i, channels = [], heap = (\<lambda>_. None), peers = [],
     pstore = (\<lambda>_. None), timers = [], joins = [], leaves = [], mesh = [], out = [],
     wire = [], next_id = 0, stopping = False \<rparr>"

section \<open>Helpers for the JS containers\<close>

text \<open>\<^verbatim>\<open>Set.prototype.add\<close> and \<^verbatim>\<open>delete\<close>.\<close>

definition set_add :: "'a \<Rightarrow> 'a list \<Rightarrow> 'a list" where
  "set_add x xs = (if x \<in> set xs then xs else xs @ [x])"

definition set_delete :: "'a \<Rightarrow> 'a list \<Rightarrow> 'a list" where
  "set_delete x xs = filter (\<lambda>y. y \<noteq> x) xs"

text \<open>\<^verbatim>\<open>this.channels.get(name)\<close>: the reference and the object behind it.\<close>

definition get_channel :: "daemon \<Rightarrow> string \<Rightarrow> (nat \<times> channel) option" where
  "get_channel s name =
     (case map_of (channels s) name of
        None \<Rightarrow> None
      | Some r \<Rightarrow> (case heap s r of None \<Rightarrow> None | Some ch \<Rightarrow> Some (r, ch)))"

definition get_peer :: "daemon \<Rightarrow> string \<Rightarrow> (nat \<times> peer) option" where
  "get_peer s key =
     (case map_of (peers s) key of
        None \<Rightarrow> None
      | Some c \<Rightarrow> (case pstore s c of None \<Rightarrow> None | Some p \<Rightarrow> Some (c, p)))"

definition reply :: "nat \<Rightarrow> reply \<Rightarrow> daemon \<Rightarrow> daemon" where
  "reply sock d s = s\<lparr>out := out s @ [(sock, d)]\<rparr>"

text \<open>\<^verbatim>\<open>Array.from(this.channels.values()).map(ch => ch.topicHex)\<close>.\<close>

definition topics :: "daemon \<Rightarrow> string list" where
  "topics s = concat (map (\<lambda>(n, r). case heap s r of None \<Rightarrow> [] | Some ch \<Rightarrow> [topicHex ch])
                        (channels s))"

section \<open>Topic matching and re-announcement\<close>

text \<open>
  The loop \<^verbatim>\<open>for (const [, ch] of this.channels) if (T.has(ch.topicHex) && !ch.peers.has(remoteKey)) { ... }\<close>
  that the hello handler and \<^verbatim>\<open>_reannounce\<close> both run, over the registry entries \<open>cs\<close>,
  for the peer object \<open>c\<close> with key \<open>key\<close> and topic set \<open>T\<close>.
\<close>

fun match_topics :: "string \<Rightarrow> nat \<Rightarrow> string list \<Rightarrow> (string \<times> nat) list \<Rightarrow> daemon \<Rightarrow> daemon" where
  "match_topics key c T [] s = s"
| "match_topics key c T ((n, r) # cs) s =
     match_topics key c T cs
       (case heap s r of
          None \<Rightarrow> s
        | Some ch \<Rightarrow>
            if topicHex ch \<in> set T \<and> key \<notin> set (ch_peers ch)
            then s\<lparr> heap := (heap s)(r \<mapsto> ch\<lparr>ch_peers := set_add key (ch_peers ch)\<rparr>),
                    pstore := (case pstore s c of
                                 None \<Rightarrow> pstore s
                               | Some p \<Rightarrow> (pstore s)(c \<mapsto>
                                   p\<lparr>p_channels := set_add (take 8 (topicHex ch)) (p_channels p)\<rparr>)) \<rparr>
            else s)"

text \<open>\<^verbatim>\<open>_reannounce\<close>: the loop over \<^verbatim>\<open>this.peers\<close>; \<open>hello\<close> is built once, before it.\<close>

fun reannounce_loop :: "frame \<Rightarrow> (string \<times> nat) list \<Rightarrow> daemon \<Rightarrow> daemon" where
  "reannounce_loop hello [] s = s"
| "reannounce_loop hello ((key, c) # ps) s =
     reannounce_loop hello ps
       (case pstore s c of
          None \<Rightarrow> s
        | Some p \<Rightarrow>
            let s1 = (if conn_writable p then s\<lparr>wire := wire s @ [(c, hello)]\<rparr> else s)
            in (case knownTopics p of
                  None \<Rightarrow> s1
                | Some T \<Rightarrow> match_topics key c T (channels s1) s1))"

definition reannounce :: "daemon \<Rightarrow> daemon" where
  "reannounce s = reannounce_loop (FHello (topics s) (daemon_id s)) (peers s) s"

section \<open>Channel management\<close>

text \<open>
  \<^verbatim>\<open>_joinChannel\<close> up to its \<^verbatim>\<open>await\<close>, with the reply of the \<^verbatim>\<open>join\<close> case when the function
  returns at once (the source writes that reply in a microtask of the same turn of the
  loop, the model at once). An error thrown by \<^verbatim>\<open>deriveTopic\<close> is caught by \<^verbatim>\<open>_exec\<close> and
  replied. The handle returned by \<^verbatim>\<open>swarm.join\<close> is the fresh identifier \<open>d\<close>.
\<close>

definition joinChannel :: "env \<Rightarrow> nat \<Rightarrow> string \<Rightarrow> string \<Rightarrow> daemon \<Rightarrow> daemon" where
  "joinChannel E sock name secret s =
     (if name \<in> fst ` set (channels s) then reply sock (OkChannel name) s
      else (case deriveTopic E name secret of
              Inl m \<Rightarrow> reply sock (Err (Thrown m)) s
            | Inr topic \<Rightarrow>
                let d = next_id s
                in s\<lparr> mesh := mesh s @ [MeshJoin d topic],
                      joins := joins s @ [(d, \<lparr>j_name = name, j_topic = topic, j_sock = sock\<rparr>)],
                      next_id := Suc d \<rparr>))"

text \<open>The rest of \<^verbatim>\<open>_joinChannel\<close>, once \<^verbatim>\<open>discovery.flushed()\<close> of handle \<open>d\<close> has resolved:
  \<^verbatim>\<open>this.channels.set(name, { ... })\<close> with a new object, \<^verbatim>\<open>_reannounce()\<close>, then the reply.\<close>

definition joinFlushed :: "nat \<Rightarrow> daemon \<Rightarrow> daemon" where
  "joinFlushed d s =
     (case map_of (joins s) d of
        None \<Rightarrow> s
      | Some j \<Rightarrow>
          let r = next_id s;
              s1 = s\<lparr> joins := AList.delete d (joins s),
                      heap := (heap s)(r \<mapsto> \<lparr>topicHex = j_topic j, discovery = d, ch_peers = [],
                                              messages = [], waiters = []\<rparr>),
                      channels := AList.update (j_name j) r (channels s),
                      next_id := Suc r \<rparr>
          in reply (j_sock j) (OkChannel (j_name j)) (reannounce s1))"

text \<open>\<^verbatim>\<open>_leaveChannel\<close> up to its \<^verbatim>\<open>await\<close>, with the reply of the \<^verbatim>\<open>leave\<close> case when the
  channel is not there.\<close>

definition leaveChannel :: "nat \<Rightarrow> string \<Rightarrow> daemon \<Rightarrow> daemon" where
  "leaveChannel sock name s =
     (case get_channel s name of
        None \<Rightarrow> reply sock Ok s
      | Some (r, ch) \<Rightarrow>
          s\<lparr> mesh := mesh s @ [MeshDestroy (discovery ch)],
             leaves := leaves s @ [(next_id s, \<lparr>l_name = name, l_sock = sock\<rparr>)],
             next_id := Suc (next_id s) \<rparr>)"

text \<open>The rest of \<^verbatim>\<open>_leaveChannel\<close>, once \<^verbatim>\<open>destroy()\<close> has resolved:
  \<^verbatim>\<open>this.channels.delete(name)\<close>, then the reply.\<close>

definition leaveDestroyed :: "nat \<Rightarrow> daemon \<Rightarrow> daemon" where
  "leaveDestroyed l s =
     (case map_of (leaves s) l of
        None \<Rightarrow> s
      | Some p \<Rightarrow>
          reply (l_sock p) Ok
            (s\<lparr> leaves := AList.delete l (leaves s),
                channels := AList.delete (l_name p) (channels s) \<rparr>))"

section \<open>Send\<close>

text \<open>The loop of \<^verbatim>\<open>_send\<close> over \<^verbatim>\<open>ch.peers\<close>: write to every peer that is registered and
  writable, counting the writes.\<close>

fun send_loop :: "frame \<Rightarrow> string list \<Rightarrow> nat \<Rightarrow> daemon \<Rightarrow> nat \<times> daemon" where
  "send_loop payload [] count s = (count, s)"
| "send_loop payload (key # keys) count s =
     (case get_peer s key of
        Some (c, p) \<Rightarrow>
          if conn_writable p
          then send_loop payload keys (Suc count) (s\<lparr>wire := wire s @ [(c, payload)]\<rparr>)
          else send_loop payload keys count s
      | None \<Rightarrow> send_loop payload keys count s)"

text \<open>\<^verbatim>\<open>_send(channelName, message)\<close>; \<open>now\<close> is what \<^verbatim>\<open>Date.now()\<close> returns.\<close>

definition send :: "int \<Rightarrow> string \<Rightarrow> jstring \<Rightarrow> daemon \<Rightarrow> error + nat \<times> daemon" where
  "send now channelName message s =
     (case get_channel s channelName of
        None \<Rightarrow> Inl (NotInChannel channelName)
      | Some (r, ch) \<Rightarrow>
          Inr (send_loop (FMsg (topicHex ch) message (daemon_id s) now) (ch_peers ch) 0 s))"

section \<open>Inbound peer records\<close>

text \<open>The search of the \<^verbatim>\<open>msg\<close> branch,
  \<^verbatim>\<open>for (const [, ch] of this.channels) { if (ch.topicHex === msg.topic) { ...; break } }\<close>:
  the first registry entry, in insertion order, whose channel object has the topic.\<close>

fun topic_loop :: "(nat \<Rightarrow> channel option) \<Rightarrow> string \<Rightarrow> (string \<times> nat) list \<Rightarrow> (nat \<times> channel) option" where
  "topic_loop h topic [] = None"
| "topic_loop h topic ((n, r) # cs) =
     (case h r of
        None \<Rightarrow> topic_loop h topic cs
      | Some ch \<Rightarrow> if topicHex ch = topic then Some (r, ch) else topic_loop h topic cs)"

definition find_topic :: "daemon \<Rightarrow> string \<Rightarrow> (nat \<times> channel) option" where
  "find_topic s topic = topic_loop (heap s) topic (channels s)"

text \<open>The body of that loop for the matching channel object \<open>r\<close>: the oldest waiter is
  shifted off and called with the one entry (it clears its timer and replies), or, with
  no waiter, the entry is pushed on the buffer.\<close>

definition deliver :: "nat \<Rightarrow> channel \<Rightarrow> entry \<Rightarrow> daemon \<Rightarrow> daemon" where
  "deliver r ch e s =
     (case waiters ch of
        w # ws \<Rightarrow>
          reply (w_sock w) (OkMessages [e])
            (s\<lparr> heap := (heap s)(r \<mapsto> ch\<lparr>waiters := ws\<rparr>),
                timers := AList.delete (wid w) (timers s) \<rparr>)
      | [] \<Rightarrow> s\<lparr>heap := (heap s)(r \<mapsto> ch\<lparr>messages := messages ch @ [e]\<rparr>)\<rparr>)"

definition route :: "string \<Rightarrow> string \<Rightarrow> jstring \<Rightarrow> string \<Rightarrow> int \<Rightarrow> daemon \<Rightarrow> daemon" where
  "route key topic data i ts s =
     (case find_topic s topic of
        None \<Rightarrow> s
      | Some (r, ch) \<Rightarrow>
          deliver r ch \<lparr>e_from = (if i \<noteq> [] then i else take 8 key), e_data = data, e_ts = ts\<rparr> s)"

text \<open>\<^verbatim>\<open>_onPeerMsg(remoteKey, msg)\<close>.\<close>

fun onPeerMsg :: "string \<Rightarrow> frame \<Rightarrow> daemon \<Rightarrow> daemon" where
  "onPeerMsg key (FHello theirTopics i) s =
     (case get_peer s key of
        None \<Rightarrow> s
      | Some (c, p) \<Rightarrow>
          match_topics key c theirTopics (channels s)
            (s\<lparr>pstore := (pstore s)(c \<mapsto> p\<lparr>knownTopics := Some theirTopics\<rparr>)\<rparr>))"
| "onPeerMsg key (FMsg topic data i ts) s =
     (case get_peer s key of
        None \<Rightarrow> s
      | Some (c, p) \<Rightarrow>
          if data \<noteq> [] \<and> byteLength data > MAX_MESSAGE_SIZE then s
          else route key topic data i ts s)"
| "onPeerMsg key FOther s = s"

section \<open>Peer connections\<close>

text \<open>\<^verbatim>\<open>_onPeer(conn, info)\<close>: the new peer object replaces any entry under the same key.\<close>

definition onPeer :: "string \<Rightarrow> daemon \<Rightarrow> daemon" where
  "onPeer key s =
     (let c = next_id s
      in s\<lparr> pstore := (pstore s)(c \<mapsto> \<lparr>remoteKey = key, conn_writable = True, conn_destroyed = False,
                                        p_channels = [], buf = [], knownTopics = None\<rparr>),
            peers := AList.update key c (peers s),
            wire := wire s @ [(c, FHello (topics s) (daemon_id s))],
            next_id := Suc c \<rparr>)"

text \<open>\<^verbatim>\<open>conn.destroy()\<close>.\<close>

definition destroy :: "nat \<Rightarrow> daemon \<Rightarrow> daemon" where
  "destroy c s =
     (case pstore s c of
        None \<Rightarrow> s
      | Some p \<Rightarrow> s\<lparr>pstore := (pstore s)(c \<mapsto> p\<lparr>conn_writable := False, conn_destroyed := True\<rparr>)\<rparr>)"

text \<open>\<^verbatim>\<open>line.trim()\<close> is truthy when the line has a code unit that is not white space or a
  line terminator of JavaScript.\<close>

definition is_space :: "16 word \<Rightarrow> bool" where
  "is_space u \<longleftrightarrow>
     u \<in> {0x0009, 0x000A, 0x000B, 0x000C, 0x000D, 0x0020, 0x00A0, 0x1680, 0x2028, 0x2029,
          0x202F, 0x205F, 0x3000, 0xFEFF} \<or> (0x2000 \<le> u \<and> u \<le> 0x200A)"

definition blank :: "jstring \<Rightarrow> bool" where
  "blank line = list_all is_space line"

text \<open>\<^verbatim>\<open>b.indexOf('\n')\<close>, \<open>None\<close> for \<^verbatim>\<open>-1\<close>.\<close>

fun indexOf_nl :: "jstring \<Rightarrow> nat option" where
  "indexOf_nl [] = None"
| "indexOf_nl (x # xs) =
     (if x = 0x0A then Some 0 else map_option Suc (indexOf_nl xs))"

lemma indexOf_nl_less: "indexOf_nl b = Some idx \<Longrightarrow> idx < length b"
  by (induction b arbitrary: idx) (auto split: if_splits)

text \<open>\<^verbatim>\<open>peer.buf = ...\<close> on the peer object of connection \<open>c\<close>.\<close>

definition set_buf :: "nat \<Rightarrow> jstring \<Rightarrow> daemon \<Rightarrow> daemon" where
  "set_buf c b s =
     (case pstore s c of None \<Rightarrow> s | Some p \<Rightarrow> s\<lparr>pstore := (pstore s)(c \<mapsto> p\<lparr>buf := b\<rparr>)\<rparr>)"

text \<open>
  The \<^verbatim>\<open>while ((idx = peer.buf.indexOf('\n')) !== -1)\<close> loop of the data handler of
  connection \<open>c\<close>. \<open>b\<close> is \<^verbatim>\<open>peer.buf\<close>, also stored in the peer object at every turn as the
  source does; \<^verbatim>\<open>_onPeerMsg\<close> never touches it. A line that does not parse is skipped
  (\<^verbatim>\<open>try { ... } catch {}\<close>).
\<close>

function lines_loop :: "env \<Rightarrow> nat \<Rightarrow> string \<Rightarrow> jstring \<Rightarrow> daemon \<Rightarrow> daemon" where
  "lines_loop E c key b s =
     (case indexOf_nl b of
        None \<Rightarrow> s
      | Some idx \<Rightarrow>
          let line = take idx b;
              b' = drop (Suc idx) b;
              s1 = set_buf c b' s
          in lines_loop E c key b'
               (if \<not> blank line
                then (case parse E line of None \<Rightarrow> s1 | Some m \<Rightarrow> onPeerMsg key m s1)
                else s1))"
  by pat_completeness auto
termination
  by (relation "measure (\<lambda>(E, c, key, b, s). length b)") (auto dest: indexOf_nl_less)

declare lines_loop.simps [simp del]

text \<open>The \<^verbatim>\<open>'data'\<close> handler of connection \<open>c\<close>; \<open>data\<close> is \<^verbatim>\<open>data.toString()\<close>, the text the
  chunk decodes to, and the bound is on \<^verbatim>\<open>peer.buf.length\<close>, counted in code units. A destroyed
  stream emits no more data.\<close>

definition onData :: "env \<Rightarrow> nat \<Rightarrow> jstring \<Rightarrow> daemon \<Rightarrow> daemon" where
  "onData E c data s =
     (case pstore s c of
        None \<Rightarrow> s
      | Some p \<Rightarrow>
          if conn_destroyed p then s
          else
            let b = buf p @ data;
                s1 = set_buf c b s
            in if length b > MAX_PEER_BUFFER then destroy c s1
               else lines_loop E c (remoteKey p) b s1)"

text \<open>The \<^verbatim>\<open>'close'\<close> handler: \<^verbatim>\<open>ch.peers.delete(remoteKey)\<close> on every registered channel, then
  \<^verbatim>\<open>this.peers.delete(remoteKey)\<close>.\<close>

fun close_loop :: "string \<Rightarrow> (string \<times> nat) list \<Rightarrow> daemon \<Rightarrow> daemon" where
  "close_loop key [] s = s"
| "close_loop key ((n, r) # cs) s =
     close_loop key cs
       (case heap s r of
          None \<Rightarrow> s
        | Some ch \<Rightarrow> s\<lparr>heap := (heap s)(r \<mapsto> ch\<lparr>ch_peers := set_delete key (ch_peers ch)\<rparr>)\<rparr>)"

definition onClose :: "nat \<Rightarrow> daemon \<Rightarrow> daemon" where
  "onClose c s =
     (case pstore s c of
        None \<Rightarrow> s
      | Some p \<Rightarrow>
          let s1 = close_loop (remoteKey p) (channels s) s
          in s1\<lparr> peers := AList.delete (remoteKey p) (peers s1),
                 pstore := (pstore s1)(c \<mapsto> p\<lparr>conn_writable := False, conn_destroyed := True\<rparr>) \<rparr>)"

section \<open>The local control protocol\<close>

text \<open>\<^verbatim>\<open>(cmd.timeout || 30) * 1000\<close>: an absent timeout and the number 0 are both falsy.\<close>

definition read_timeout :: "int option \<Rightarrow> int" where
  "read_timeout t = (case t of None \<Rightarrow> 30 | Some n \<Rightarrow> if n = 0 then 30 else n) * 1000"

text \<open>The callback given to \<^verbatim>\<open>setTimeout\<close>, run when timer \<open>t\<close> fires. A timer that has
  fired or was cleared never fires.\<close>

definition timerFired :: "nat \<Rightarrow> daemon \<Rightarrow> daemon" where
  "timerFired t s =
     (case map_of (timers s) t of
        None \<Rightarrow> s
      | Some tm \<Rightarrow>
          let s1 = s\<lparr>timers := AList.delete t (timers s)\<rparr>;
              s2 = (case heap s1 (t_ch tm) of
                      None \<Rightarrow> s1
                    | Some ch \<Rightarrow>
                        s1\<lparr>heap := (heap s1)(t_ch tm \<mapsto>
                              ch\<lparr>waiters := filter (\<lambda>w. wid w \<noteq> t) (waiters ch)\<rparr>)\<rparr>)
          in reply (t_sock tm) (OkMessages []) s2)"

text \<open>
  The snapshot of the \<^verbatim>\<open>status\<close> case. The loop assigns \<^verbatim>\<open>channels[name] = { ... }\<close> on a plain
  object, and the reply lists its own properties: the names that are array indices
  (canonical decimal numerals up to \<open>2^32 - 2\<close>) first, in ascending order, then the other
  names in the order they were assigned. Assigning to \<^verbatim>\<open>__proto__\<close> sets the prototype and
  creates no property.
\<close>

definition digits_value :: "string \<Rightarrow> nat" where
  "digits_value cs = foldl (\<lambda>n c. 10 * n + (of_char c - 48)) 0 cs"

definition array_index :: "string \<Rightarrow> nat option" where
  "array_index name =
     (if name \<noteq> [] \<and> list_all (\<lambda>c. 48 \<le> (of_char c :: nat) \<and> (of_char c :: nat) \<le> 57) name \<and>
         (name = ''0'' \<or> hd name \<noteq> CHR ''0'') \<and> digits_value name \<le> 4294967294
      then Some (digits_value name) else None)"

definition status :: "daemon \<Rightarrow> (string \<times> nat \<times> nat) list" where
  "status s =
     (let assigned = concat (map (\<lambda>(n, r). case heap s r of
                                      None \<Rightarrow> []
                                    | Some ch \<Rightarrow> [(n, length (ch_peers ch), length (messages ch))])
                             (channels s));
          own = filter (\<lambda>e. fst e \<noteq> ''__proto__'') assigned
      in map snd (sort_key fst
                    (concat (map (\<lambda>e. case array_index (fst e) of
                                         None \<Rightarrow> []
                                       | Some i \<Rightarrow> [(i, e)]) own)))
         @ filter (\<lambda>e. array_index (fst e) = None) own)"

text \<open>\<^verbatim>\<open>_exec(cmd, socket)\<close>; \<open>now\<close> is the clock read by \<^verbatim>\<open>_send\<close>.\<close>

fun exec :: "env \<Rightarrow> int \<Rightarrow> nat \<Rightarrow> cmd \<Rightarrow> daemon \<Rightarrow> daemon" where
  "exec E now sock (Join name secret) s = joinChannel E sock name secret s"
| "exec E now sock (Send name message) s =
     (if message \<noteq> [] \<and> byteLength message > MAX_MESSAGE_SIZE
      then reply sock (Err MessageTooLarge) s
      else (case send now name message s of
              Inl e \<Rightarrow> reply sock (Err e) s
            | Inr (count, s') \<Rightarrow> reply sock (OkDelivered count) s'))"
| "exec E now sock (Read name wait timeout) s =
     (case get_channel s name of
        None \<Rightarrow> reply sock (Err (NotInChannel name)) s
      | Some (r, ch) \<Rightarrow>
          if messages ch \<noteq> [] \<or> \<not> wait
          then reply sock (OkMessages (messages ch))
                 (s\<lparr>heap := (heap s)(r \<mapsto> ch\<lparr>messages := []\<rparr>)\<rparr>)
          else
            let t = next_id s
            in s\<lparr> timers := timers s @ [(t, \<lparr>t_ch = r, t_sock = sock, t_delay = read_timeout timeout\<rparr>)],
                  heap := (heap s)(r \<mapsto> ch\<lparr>waiters := waiters ch @ [\<lparr>wid = t, w_sock = sock\<rparr>]\<rparr>),
                  next_id := Suc t \<rparr>)"
| "exec E now sock (Leave name) s = leaveChannel sock name s"
| "exec E now sock Status s = reply sock (OkStatus (status s) (daemon_id s)) s"
| "exec E now sock Ping s = reply sock Ok s"
| "exec E now sock Stop s = (reply sock Ok s)\<lparr>stopping := True\<rparr>"
| "exec E now sock (Unknown a) s = reply sock (Err (UnknownAction a)) s"

section \<open>The event loop\<close>

text \<open>Everything that can happen to a running daemon: a local request, a mesh promise
  resolving, a peer connecting, sending bytes, failing or closing, a timer firing.\<close>

datatype event =
    Exec int nat cmd
  | JoinFlushed nat
  | LeaveDestroyed nat
  | PeerConnect string
  | PeerData nat jstring
  | PeerError nat
  | PeerClose nat
  | TimerFired nat

fun step :: "env \<Rightarrow> event \<Rightarrow> daemon \<Rightarrow> daemon" where
  "step E (Exec now sock c) s = exec E now sock c s"
| "step E (JoinFlushed d) s = joinFlushed d s"
| "step E (LeaveDestroyed l) s = leaveDestroyed l s"
| "step E (PeerConnect key) s = onPeer key s"
| "step E (PeerData c data) s = onData E c data s"
| "step E (PeerError c) s = destroy c s"
| "step E (PeerClose c) s = onClose c s"
| "step E (TimerFired t) s = timerFired t s"

definition run :: "env \<Rightarrow> event list \<Rightarrow> daemon \<Rightarrow> daemon" where
  "run E evs s = foldl (\<lambda>s e. step E e s) s evs"

inductive reachable :: "env \<Rightarrow> daemon \<Rightarrow> bool" for E :: env where
  reachable_init: "reachable E (init i)"
| reachable_step: "reachable E s \<Longrightarrow> reachable E (step E e s)"

section \<open>Well-formed daemon states\<close>

text \<open>A waiter is armed when its timer is pending and closes over the same channel object
  and socket.\<close>

definition waiter_armed :: "daemon \<Rightarrow> nat \<Rightarrow> waiter \<Rightarrow> bool" where
  "waiter_armed s r w =
     (case map_of (timers s) (wid w) of
        None \<Rightarrow> False
      | Some tm \<Rightarrow> t_ch tm = r \<and> t_sock tm = w_sock w)"

definition channel_ok :: "daemon \<Rightarrow> nat \<Rightarrow> channel \<Rightarrow> bool" where
  "channel_ok s r ch \<longleftrightarrow>
     (messages ch = [] \<or> waiters ch = []) \<and>
     distinct (map wid (waiters ch)) \<and>
     (\<forall>w \<in> set (waiters ch). waiter_armed s r w)"

definition ids_fresh :: "daemon \<Rightarrow> bool" where
  "ids_fresh s \<longleftrightarrow>
     (\<forall>t \<in> fst ` set (timers s). t < next_id s) \<and>
     (\<forall>j \<in> fst ` set (joins s). j < next_id s) \<and>
     (\<forall>l \<in> fst ` set (leaves s). l < next_id s)"

definition wf_daemon :: "daemon \<Rightarrow> bool" where
  "wf_daemon s \<longleftrightarrow> (\<forall>r ch. heap s r = Some ch \<longrightarrow> channel_ok s r ch) \<and> ids_fresh s"

definition queues :: "channel \<Rightarrow> entry list \<times> waiter list" where
  "queues ch = (messages ch, waiters ch)"

definition same_queues :: "daemon \<Rightarrow> daemon \<Rightarrow> bool" where
  "same_queues s s' \<longleftrightarrow>
     timers s' = timers s \<and> joins s' = joins s \<and> leaves s' = leaves s \<and> next_id s' = next_id s \<and>
     channels s' = channels s \<and>
     (\<forall>r. map_option queues (heap s' r) = map_option queues (heap s r))"



text \<open>Channel objects and registry references are identifiers handed out earlier, and no
  object is registered under two names.\<close>

definition refs_ok :: "daemon \<Rightarrow> bool" where
  "refs_ok s \<longleftrightarrow>
     (\<forall>r ch. heap s r = Some ch \<longrightarrow> r < next_id s) \<and>
     (\<forall>r \<in> snd ` set (channels s). r < next_id s) \<and>
     distinct (map snd (channels s))"

text \<open>What every handler respects: identifiers are handed out in increasing order, and a
  channel object, a registry reference or a pending timer that is there afterwards was
  there before or is new.\<close>

definition advances :: "daemon \<Rightarrow> daemon \<Rightarrow> bool" where
  "advances s s' \<longleftrightarrow>
     next_id s \<le> next_id s' \<and>
     (\<forall>r. heap s' r \<noteq> None \<longrightarrow> heap s r \<noteq> None \<or> next_id s \<le> r \<and> r < next_id s') \<and>
     (\<forall>r \<in> snd ` set (channels s'). r \<in> snd ` set (channels s) \<or> next_id s \<le> r \<and> r < next_id s') \<and>
     (\<forall>t \<in> fst ` set (timers s'). t \<in> fst ` set (timers s) \<or> next_id s \<le> t \<and> t < next_id s') \<and>
     (refs_ok s \<longrightarrow> distinct (map snd (channels s')))"

text \<open>
  The states a handler can find the daemon in: those between two events and, inside the
  data handler, those between the records of one chunk (each turn of its loop assigns
  \<^verbatim>\<open>peer.buf\<close> and calls \<^verbatim>\<open>_onPeerMsg\<close> on a parsed line).
\<close>

inductive visited :: "env \<Rightarrow> daemon \<Rightarrow> bool" for E :: env where
  visited_init: "visited E (init i)"
| visited_step: "visited E s \<Longrightarrow> visited E (step E e s)"
| visited_buf: "visited E s \<Longrightarrow> visited E (set_buf c b s)"
| visited_msg: "visited E s \<Longrightarrow> visited E (onPeerMsg key m s)"

section \<open>Suspended reads\<close>

text \<open>
  A read is suspended while its waiter \<open>w\<close> is queued on the channel object \<open>r\<close> and its timer
  is pending. It has been resolved once its timer, armed earlier, is no longer pending: the
  waiter clears it when it is called with a message, and the runtime drops it when it
  fires. Both write the reply of the read.
\<close>

definition suspended :: "daemon \<Rightarrow> nat \<Rightarrow> waiter \<Rightarrow> bool" where
  "suspended s r w \<longleftrightarrow>
     (case heap s r of None \<Rightarrow> False | Some ch \<Rightarrow> w \<in> set (waiters ch)) \<and> waiter_armed s r w"

definition resolved :: "daemon \<Rightarrow> nat \<Rightarrow> bool" where
  "resolved s t \<longleftrightarrow> t < next_id s \<and> map_of (timers s) t = None"

text \<open>No message arrives for the channel object \<open>r\<close> during the events \<open>es\<close>: incoming data
  leaves its buffer and its waiter queue as they are.\<close>

fun no_arrival :: "env \<Rightarrow> nat \<Rightarrow> event list \<Rightarrow> daemon \<Rightarrow> bool" where
  "no_arrival E r [] s = True"
| "no_arrival E r (e # es) s \<longleftrightarrow>
     (case e of
        PeerData c d \<Rightarrow> map_option queues (heap (step E e s) r) = map_option queues (heap s r)
      | _ \<Rightarrow> True) \<and>
     no_arrival E r es (step E e s)"

section \<open>Time\<close>

text \<open>
  \<^verbatim>\<open>setTimeout(callback, delay)\<close> of Node.js runs the callback \<open>delay\<close> milliseconds later,
  where a delay below 1 or above \<open>2^31 - 1\<close> is set to 1.
\<close>

definition timer_delay :: "int \<Rightarrow> int" where
  "timer_delay d = (if d < 1 \<or> 2147483647 < d then 1 else d)"

text \<open>
  The daemon with a clock, in milliseconds: the time of the last event, the time at which
  each timer armed so far is due, and the replies with the time they were written at.
\<close>

record clocked =
  st :: daemon
  clock :: int
  due :: "(nat \<times> int) list"
  sent :: "(int \<times> nat \<times> reply) list"

definition start :: "string \<Rightarrow> int \<Rightarrow> clocked" where
  "start i \<tau> = \<lparr>st = init i, clock = \<tau>, due = [], sent = []\<rparr>"

text \<open>The event \<open>snd te\<close> handled at time \<open>fst te\<close>: the timers it arms become due their
  delay later, and the replies it writes are stamped with the time.\<close>

definition tick :: "env \<Rightarrow> int \<times> event \<Rightarrow> clocked \<Rightarrow> clocked" where
  "tick E te c =
     (let s' = step E (snd te) (st c)
      in \<lparr> st = s', clock = fst te,
            due = due c @ map (\<lambda>(t, tm). (t, fst te + timer_delay (t_delay tm)))
                            (filter (\<lambda>(t, tm). map_of (timers (st c)) t = None) (timers s')),
            sent = sent c @ map (Pair (fst te)) (drop (length (out (st c))) (out s')) \<rparr>)"

definition run_timed :: "env \<Rightarrow> (int \<times> event) list \<Rightarrow> clocked \<Rightarrow> clocked" where
  "run_timed E tes c = foldl (\<lambda>c te. tick E te c) c tes"

text \<open>
  A schedule on which the runtime keeps time: time does not go back, the callback of a
  pending timer runs at the time the timer is due, and no other event is handled later
  than that while the timer is pending.
\<close>

fun punctual :: "env \<Rightarrow> (int \<times> event) list \<Rightarrow> clocked \<Rightarrow> bool" where
  "punctual E [] c = True"
| "punctual E (te # tes) c \<longleftrightarrow>
     clock c \<le> fst te \<and>
     (\<forall>(t, tm) \<in> set (timers (st c)).
        case map_of (due c) t of
          None \<Rightarrow> True
        | Some d \<Rightarrow> if snd te = TimerFired t then fst te = d else fst te \<le> d) \<and>
     punctual E tes (tick E te c)"

section \<open>Reading aids and sample states\<close>

text \<open>The connections a send on a channel with matched keys \<open>keys\<close> writes to: those
  registered under a matched key and writable, in the order of the matched set. Then a
  sample environment, whose parser reads the first code unit of a line (\<open>M\<close> for a message
  of the sample topic carrying the rest of the line, \<open>H\<close> for a hello with that topic), and
  sample runs of the daemon, used to instantiate the theorems.\<close>

definition writable_peers :: "daemon \<Rightarrow> string list \<Rightarrow> nat list" where
  "writable_peers s keys =
     concat (map (\<lambda>key. case get_peer s key of
                           None \<Rightarrow> []
                         | Some (c, p) \<Rightarrow> if conn_writable p then [c] else []) keys)"

text \<open>An ASCII literal as a JavaScript string.\<close>

definition js :: "string \<Rightarrow> jstring" where
  "js cs = map (\<lambda>c. of_nat (of_char c)) cs"

definition demo_env :: env where
  "demo_env = \<lparr> deriveTopic = (\<lambda>name secret. Inr (name @ ''/'' @ secret)),
                 parse = (\<lambda>line. case line of
                            [] \<Rightarrow> None
                          | x # xs \<Rightarrow> if x = 0x4D then Some (FMsg ''room/s1'' xs ''peerB'' 7)
                                      else if x = 0x48 then Some (FHello [''room/s1''] ''peerB'')
                                      else None) \<rparr>"

definition joined :: daemon where
  "joined = run demo_env [Exec 0 1 (Join ''room'' ''s1''), JoinFlushed 0] (init ''d0'')"

definition at_limit :: jstring where
  "at_limit = replicate MAX_MESSAGE_SIZE 0x61"

definition oversized :: jstring where
  "oversized = replicate (Suc MAX_MESSAGE_SIZE) 0x61"

definition room :: channel where
  "room = \<lparr>topicHex = ''room/s1'', discovery = 0, ch_peers = [], messages = [], waiters = []\<rparr>"

definition matched :: daemon where
  "matched = run demo_env [PeerConnect ''kB'', PeerData 2 (js ''Hroom/s1'' @ [0x0A])] joined"

definition peerB :: peer where
  "peerB = \<lparr>remoteKey = ''kB'', conn_writable = True, conn_destroyed = False,
             p_channels = [''room/s1''], buf = [], knownTopics = Some [''room/s1'']\<rparr>"

definition waiting :: daemon where
  "waiting = exec demo_env 0 7 (Read ''room'' True None) matched"



definition timed_out :: daemon where
  "timed_out = timerFired 3 waiting"

definition hi :: entry where
  "hi = \<lparr>e_from = ''peerB'', e_data = js ''hi'', e_ts = 7\<rparr>"

definition buffered :: daemon where
  "buffered = onPeerMsg ''kB'' (FMsg ''room/s1'' (js ''hi'') ''peerB'' 7) matched"

text \<open>Half a bound of euro signs: three bytes in one code unit each.\<close>

definition euros :: jstring where
  "euros = replicate (MAX_PEER_BUFFER div 2) 0x20AC"

definition flood :: jstring where
  "flood = replicate (Suc MAX_PEER_BUFFER) 0x61"

text \<open>A schedule: the sample state is reached in the first three milliseconds, the read is
  made at 10 ms, a ping follows at 20 ms.\<close>

definition boot :: "(int \<times> event) list" where
  "boot = [(0, Exec 0 1 (Join ''room'' ''s1'')), (1, JoinFlushed 0), (2, PeerConnect ''kB''),
           (3, PeerData 2 (js ''Hroom/s1'' @ [0x0A]))]"

definition before_read :: clocked where
  "before_read = run_timed demo_env boot (start ''d0'' 0)"

definition during_read :: clocked where
  "during_read = run_timed demo_env [(10, Exec 0 7 (Read ''room'' True None)), (20, Exec 0 8 Ping)]
                   before_read"

section \<open>The invariant holds in every reachable state\<close>

lemma wf_channel: "wf_daemon s \<Longrightarrow> heap s r = Some ch \<Longrightarrow> channel_ok s r ch"
  by (simp add: wf_daemon_def)

lemma wf_fresh: "wf_daemon s \<Longrightarrow> ids_fresh s"
  by (simp add: wf_daemon_def)

lemma wf_daemonI: "(\<And>r ch. heap s r = Some ch \<Longrightarrow> channel_ok s r ch) \<Longrightarrow> ids_fresh s \<Longrightarrow> wf_daemon s"
  by (simp add: wf_daemon_def)

lemma same_queues_refl: "same_queues s s"
  by (simp add: same_queues_def)

lemma same_queues_trans: "same_queues s s' \<Longrightarrow> same_queues s' s'' \<Longrightarrow> same_queues s s''"
  by (simp add: same_queues_def)

lemma same_queues_heap:
  assumes q: "same_queues s s'" and h: "heap s' r = Some ch'"
  shows "\<exists>ch. heap s r = Some ch \<and> messages ch = messages ch' \<and> waiters ch = waiters ch'"
proof -
  from q have "map_option queues (heap s' r) = map_option queues (heap s r)"
    by (simp add: same_queues_def)
  with h show ?thesis by (cases "heap s r") (auto simp: queues_def)
qed

lemma same_queues_wf:
  assumes q: "same_queues s s'" and w: "wf_daemon s"
  shows "wf_daemon s'"
proof (rule wf_daemonI)
  from q have eqs: "timers s' = timers s" "joins s' = joins s" "leaves s' = leaves s"
    "next_id s' = next_id s" by (simp_all add: same_queues_def)
  show "ids_fresh s'" using wf_fresh [OF w] by (simp add: ids_fresh_def eqs)
  fix r ch' assume a: "heap s' r = Some ch'"
  from same_queues_heap [OF q a] obtain ch where c: "heap s r = Some ch"
    "messages ch = messages ch'" "waiters ch = waiters ch'" by blast
  from wf_channel [OF w c(1)] show "channel_ok s' r ch'"
    by (simp add: channel_ok_def waiter_armed_def c eqs)
qed

lemma wire_same: "same_queues s (s\<lparr>wire := x\<rparr>)"
  by (simp add: same_queues_def)

lemma out_same: "same_queues s (reply sock d s)"
  by (simp add: same_queues_def reply_def)

lemma match_topics_same: "same_queues s (match_topics key c T cs s)"
proof (induction cs arbitrary: s)
  case Nil
  show ?case by (simp add: same_queues_refl)
next
  case (Cons a cs)
  obtain n r where a: "a = (n, r)" by (cases a)
  let ?s1 = "(case heap s r of
          None \<Rightarrow> s
        | Some ch \<Rightarrow>
            if topicHex ch \<in> set T \<and> key \<notin> set (ch_peers ch)
            then s\<lparr> heap := (heap s)(r \<mapsto> ch\<lparr>ch_peers := set_add key (ch_peers ch)\<rparr>),
                    pstore := (case pstore s c of
                                 None \<Rightarrow> pstore s
                               | Some p \<Rightarrow> (pstore s)(c \<mapsto>
                                   p\<lparr>p_channels := set_add (take 8 (topicHex ch)) (p_channels p)\<rparr>)) \<rparr>
            else s)"
  have "same_queues s ?s1"
    by (auto simp: same_queues_def queues_def split: option.splits)
  from same_queues_trans [OF this Cons.IH [of ?s1]] show ?case
    by (simp add: a)
qed

lemma reannounce_loop_same: "same_queues s (reannounce_loop h ps s)"
proof (induction ps arbitrary: s)
  case Nil
  show ?case by (simp add: same_queues_refl)
next
  case (Cons a ps)
  obtain key c where a: "a = (key, c)" by (cases a)
  let ?s1 = "(case pstore s c of
          None \<Rightarrow> s
        | Some p \<Rightarrow>
            let s1 = (if conn_writable p then s\<lparr>wire := wire s @ [(c, h)]\<rparr> else s)
            in (case knownTopics p of
                  None \<Rightarrow> s1
                | Some T \<Rightarrow> match_topics key c T (channels s1) s1))"
  have "same_queues s ?s1"
  proof (cases "pstore s c")
    case None
    then show ?thesis by (simp add: same_queues_refl)
  next
    case (Some p)
    let ?s1 = "(if conn_writable p then s\<lparr>wire := wire s @ [(c, h)]\<rparr> else s)"
    have 1: "same_queues s ?s1" by (simp add: same_queues_refl wire_same)
    show ?thesis
    proof (cases "knownTopics p")
      case None
      with Some 1 show ?thesis by (simp add: Let_def)
    next
      case (Some T)
      from same_queues_trans [OF 1 match_topics_same [of ?s1 key c T "channels ?s1"]]
      show ?thesis using \<open>pstore s c = Some p\<close> Some by (simp add: Let_def)
    qed
  qed
  from same_queues_trans [OF this Cons.IH [of ?s1]] show ?case
    by (simp add: a)
qed

lemma reannounce_same: "same_queues s (reannounce s)"
  by (simp add: reannounce_def reannounce_loop_same)

lemma close_loop_same: "same_queues s (close_loop key cs s)"
proof (induction cs arbitrary: s)
  case Nil
  show ?case by (simp add: same_queues_refl)
next
  case (Cons a cs)
  obtain n r where a: "a = (n, r)" by (cases a)
  let ?s1 = "(case heap s r of
          None \<Rightarrow> s
        | Some ch \<Rightarrow> s\<lparr>heap := (heap s)(r \<mapsto> ch\<lparr>ch_peers := set_delete key (ch_peers ch)\<rparr>)\<rparr>)"
  have "same_queues s ?s1"
    by (auto simp: same_queues_def queues_def split: option.splits)
  from same_queues_trans [OF this Cons.IH [of ?s1]] show ?case
    by (simp add: a)
qed

lemma send_loop_same: "same_queues s (snd (send_loop payload keys n s))"
proof (induction keys arbitrary: n s)
  case Nil
  show ?case by (simp add: same_queues_refl)
next
  case (Cons key keys)
  show ?case
  proof (cases "get_peer s key")
    case None
    then show ?thesis by (simp add: Cons.IH)
  next
    case (Some a)
    obtain c p where a: "a = (c, p)" by (cases a)
    show ?thesis
    proof (cases "conn_writable p")
      case True
      from same_queues_trans [OF wire_same Cons.IH] show ?thesis using Some a True by simp
    next
      case False
      then show ?thesis using Some a by (simp add: Cons.IH)
    qed
  qed
qed

lemma destroy_same: "same_queues s (destroy c s)"
  by (simp add: destroy_def same_queues_def split: option.splits)

lemma set_buf_same: "same_queues s (set_buf c b s)"
  by (simp add: set_buf_def same_queues_def split: option.splits)

lemma onClose_same: "same_queues s (onClose c s)"
proof (cases "pstore s c")
  case None
  then show ?thesis by (simp add: onClose_def same_queues_refl)
next
  case (Some p)
  have "same_queues (close_loop (remoteKey p) (channels s) s) (onClose c s)"
    by (simp add: onClose_def Some Let_def same_queues_def)
  from same_queues_trans [OF close_loop_same this] show ?thesis .
qed

lemma armed_unique:
  "waiter_armed s r w \<Longrightarrow> waiter_armed s r' w' \<Longrightarrow> wid w = wid w' \<Longrightarrow> r = r'"
  by (auto simp: waiter_armed_def split: option.splits)

text \<open>Removing a waiter from one channel object together with its timer.\<close>

lemma wf_remove_waiter:
  assumes w: "wf_daemon s" and h: "heap s r = Some ch"
    and ws: "ws = filter (\<lambda>x. wid x \<noteq> t) (waiters ch)"
    and t: "\<And>r' ch' x. heap s r' = Some ch' \<Longrightarrow> x \<in> set (waiters ch') \<Longrightarrow> wid x = t \<Longrightarrow> r' = r"
    and s': "heap s' = (heap s)(r \<mapsto> ch\<lparr>waiters := ws\<rparr>)"
      "timers s' = AList.delete t (timers s)" "joins s' = joins s" "leaves s' = leaves s"
      "next_id s' = next_id s"
  shows "wf_daemon s'"
proof (rule wf_daemonI)
  show "ids_fresh s'" using wf_fresh [OF w] by (auto simp: ids_fresh_def s' AList.delete_eq)
  have keep: "waiter_armed s' r' x" if "waiter_armed s r' x" "wid x \<noteq> t" for r' x
    using that by (simp add: waiter_armed_def s')
  fix r' ch' assume a: "heap s' r' = Some ch'"
  show "channel_ok s' r' ch'"
  proof (cases "r' = r")
    case True
    with a have c: "ch' = ch\<lparr>waiters := ws\<rparr>" by (simp add: s')
    from wf_channel [OF w h] have ok: "channel_ok s r ch" .
    have "\<forall>x \<in> set ws. waiter_armed s' r x"
    proof
      fix x assume "x \<in> set ws"
      with ws have "x \<in> set (waiters ch)" "wid x \<noteq> t" by auto
      with ok show "waiter_armed s' r x"
        by (auto simp: channel_ok_def intro: keep)
    qed
    moreover have "distinct (map wid ws)"
      using ok by (simp add: channel_ok_def ws distinct_map_filter)
    moreover have "messages ch = [] \<or> ws = []"
      using ok by (auto simp: channel_ok_def ws)
    ultimately show ?thesis by (simp add: channel_ok_def c True)
  next
    case False
    with a have h': "heap s r' = Some ch'" by (simp add: s')
    from wf_channel [OF w h'] have ok: "channel_ok s r' ch'" .
    have "\<forall>x \<in> set (waiters ch'). waiter_armed s' r' x"
    proof
      fix x assume x: "x \<in> set (waiters ch')"
      with t [OF h' x] False have "wid x \<noteq> t" by blast
      with ok x show "waiter_armed s' r' x"
        by (auto simp: channel_ok_def intro: keep)
    qed
    with ok show ?thesis by (simp add: channel_ok_def)
  qed
qed

lemma wf_out: "wf_daemon s \<Longrightarrow> wf_daemon (reply sock d s)"
  by (rule same_queues_wf [OF out_same])

lemma wf_deliver:
  assumes w: "wf_daemon s" and h: "heap s r = Some ch"
  shows "wf_daemon (deliver r ch e s)"
proof (cases "waiters ch")
  case Nil
  have "wf_daemon (s\<lparr>heap := (heap s)(r \<mapsto> ch\<lparr>messages := messages ch @ [e]\<rparr>)\<rparr>)"
    (is "wf_daemon ?s'")
  proof (rule wf_daemonI)
    show "ids_fresh ?s'" using wf_fresh [OF w] by (simp add: ids_fresh_def)
    fix r' ch' assume a: "heap ?s' r' = Some ch'"
    show "channel_ok ?s' r' ch'"
    proof (cases "r' = r")
      case True
      with a Nil show ?thesis by (auto simp: channel_ok_def)
    next
      case False
      with a have "heap s r' = Some ch'" by simp
      from wf_channel [OF w this] show ?thesis
        by (simp add: channel_ok_def waiter_armed_def)
    qed
  qed
  with Nil show ?thesis by (simp add: deliver_def)
next
  case (Cons x ws)
  from wf_channel [OF w h] have ok: "channel_ok s r ch" .
  with Cons have nin: "wid x \<notin> wid ` set ws" by (simp add: channel_ok_def)
  have d: "wid y \<noteq> wid x" if "y \<in> set ws" for y
    using nin that by (metis imageI)
  have ws: "ws = filter (\<lambda>y. wid y \<noteq> wid x) (waiters ch)"
  proof -
    have "filter (\<lambda>y. wid y \<noteq> wid x) ws = ws"
      by (rule filter_True) (simp add: d)
    with Cons show ?thesis by simp
  qed
  have "wf_daemon (s\<lparr>heap := (heap s)(r \<mapsto> ch\<lparr>waiters := ws\<rparr>),
                     timers := AList.delete (wid x) (timers s)\<rparr>)"
  proof (rule wf_remove_waiter [OF w h ws])
    fix r' ch' y
    assume that: "heap s r' = Some ch'" "y \<in> set (waiters ch')" "wid y = wid x"
    from wf_channel [OF w that(1)] that(2) have "waiter_armed s r' y" by (simp add: channel_ok_def)
    moreover from ok Cons have "waiter_armed s r x" by (simp add: channel_ok_def)
    ultimately show "r' = r" using that(3) by (rule armed_unique)
  qed simp_all
  from wf_out [OF this] Cons show ?thesis
    by (simp add: deliver_def)
qed

lemma topic_loop_heap: "topic_loop h topic cs = Some (r, ch) \<Longrightarrow> h r = Some ch"
  by (induction cs) (auto split: option.splits if_splits)

lemma find_topic_heap: "find_topic s topic = Some (r, ch) \<Longrightarrow> heap s r = Some ch"
  unfolding find_topic_def by (rule topic_loop_heap)

lemma wf_route: "wf_daemon s \<Longrightarrow> wf_daemon (route key topic data i ts s)"
  by (auto simp: route_def split: option.splits intro: wf_deliver dest: find_topic_heap)

lemma wf_onPeerMsg: "wf_daemon s \<Longrightarrow> wf_daemon (onPeerMsg key m s)"
proof (cases m)
  case (FHello T i)
  assume w: "wf_daemon s"
  have p: "same_queues s (s\<lparr>pstore := x\<rparr>)" for x by (simp add: same_queues_def)
  show ?thesis
    using w same_queues_wf [OF same_queues_trans [OF p match_topics_same] w]
    by (simp add: FHello split: option.splits)
next
  case (FMsg topic data i ts)
  assume "wf_daemon s"
  then show ?thesis by (simp add: FMsg wf_route split: option.splits)
next
  case FOther
  assume "wf_daemon s"
  then show ?thesis by (simp add: FOther)
qed

lemma wf_timerFired:
  assumes w: "wf_daemon s"
  shows "wf_daemon (timerFired t s)"
proof (cases "map_of (timers s) t")
  case None
  with w show ?thesis by (simp add: timerFired_def)
next
  case (Some tm)
  show ?thesis
  proof (cases "heap s (t_ch tm)")
    case None
    have "wf_daemon (s\<lparr>timers := AList.delete t (timers s)\<rparr>)" (is "wf_daemon ?s'")
    proof (rule wf_daemonI)
      show "ids_fresh ?s'"
        using wf_fresh [OF w] by (auto simp: ids_fresh_def AList.delete_eq)
      fix r' ch' assume a: "heap ?s' r' = Some ch'"
      then have h': "heap s r' = Some ch'" by simp
      from wf_channel [OF w h'] have ok: "channel_ok s r' ch'" .
      have "\<forall>x \<in> set (waiters ch'). waiter_armed ?s' r' x"
      proof
        fix x assume x: "x \<in> set (waiters ch')"
        with ok have ar: "waiter_armed s r' x" by (simp add: channel_ok_def)
        have "wid x \<noteq> t"
        proof
          assume "wid x = t"
          with ar Some have "t_ch tm = r'" by (simp add: waiter_armed_def)
          with None h' show False by simp
        qed
        with ar show "waiter_armed ?s' r' x" by (simp add: waiter_armed_def)
      qed
      with ok show "channel_ok ?s' r' ch'" by (simp add: channel_ok_def)
    qed
    from wf_out [OF this] show ?thesis by (simp add: timerFired_def Some None Let_def)
  next
    case (Some ch)
    note h = this
    have "wf_daemon (s\<lparr>timers := AList.delete t (timers s),
            heap := (heap s)(t_ch tm \<mapsto>
            ch\<lparr>waiters := filter (\<lambda>w. wid w \<noteq> t) (waiters ch)\<rparr>)\<rparr>)"
    proof (rule wf_remove_waiter [OF w h refl])
      fix r' ch' y
      assume that: "heap s r' = Some ch'" "y \<in> set (waiters ch')" "wid y = t"
      from wf_channel [OF w that(1)] that(2) have "waiter_armed s r' y" by (simp add: channel_ok_def)
      with that(3) \<open>map_of (timers s) t = Some tm\<close> show "r' = t_ch tm"
        by (simp add: waiter_armed_def)
    qed simp_all
    from wf_out [OF this] show ?thesis
      by (simp add: timerFired_def \<open>map_of (timers s) t = Some tm\<close> h Let_def)
  qed
qed

lemma get_channel_heap: "get_channel s name = Some (r, ch) \<Longrightarrow> heap s r = Some ch"
  by (auto simp: get_channel_def split: option.splits)

lemma wf_init: "wf_daemon (init i)"
  by (simp add: wf_daemon_def ids_fresh_def init_def)

lemma wf_joinChannel: "wf_daemon s \<Longrightarrow> wf_daemon (joinChannel E sock name secret s)"
proof -
  assume w: "wf_daemon s"
  have "wf_daemon (s\<lparr> mesh := m, joins := joins s @ [(next_id s, j)], next_id := Suc (next_id s) \<rparr>)"
    (is "wf_daemon ?s'") for m j
  proof (rule wf_daemonI)
    show "ids_fresh ?s'" using wf_fresh [OF w] by (auto simp: ids_fresh_def)
    fix r ch assume "heap ?s' r = Some ch"
    then have "heap s r = Some ch" by simp
    from wf_channel [OF w this] show "channel_ok ?s' r ch"
      by (simp add: channel_ok_def waiter_armed_def)
  qed
  with w show ?thesis
    by (simp add: joinChannel_def wf_out Let_def split: sum.splits)
qed

lemma wf_leaveChannel: "wf_daemon s \<Longrightarrow> wf_daemon (leaveChannel sock name s)"
proof -
  assume w: "wf_daemon s"
  have "wf_daemon (s\<lparr> mesh := m, leaves := leaves s @ [(next_id s, l)], next_id := Suc (next_id s) \<rparr>)"
    (is "wf_daemon ?s'") for m l
  proof (rule wf_daemonI)
    show "ids_fresh ?s'" using wf_fresh [OF w] by (auto simp: ids_fresh_def)
    fix r ch assume "heap ?s' r = Some ch"
    then have "heap s r = Some ch" by simp
    from wf_channel [OF w this] show "channel_ok ?s' r ch"
      by (simp add: channel_ok_def waiter_armed_def)
  qed
  with w show ?thesis
    by (simp add: leaveChannel_def wf_out split: option.splits)
qed

lemma wf_leaveDestroyed: "wf_daemon s \<Longrightarrow> wf_daemon (leaveDestroyed l s)"
proof -
  assume w: "wf_daemon s"
  have "wf_daemon (s\<lparr> leaves := AList.delete l (leaves s), channels := c \<rparr>)"
    (is "wf_daemon ?s'") for c
  proof (rule wf_daemonI)
    show "ids_fresh ?s'" using wf_fresh [OF w] by (auto simp: ids_fresh_def AList.delete_eq)
    fix r ch assume "heap ?s' r = Some ch"
    then have "heap s r = Some ch" by simp
    from wf_channel [OF w this] show "channel_ok ?s' r ch"
      by (simp add: channel_ok_def waiter_armed_def)
  qed
  with w show ?thesis
    by (simp add: leaveDestroyed_def wf_out split: option.splits)
qed

lemma wf_joinFlushed: "wf_daemon s \<Longrightarrow> wf_daemon (joinFlushed d s)"
proof -
  assume w: "wf_daemon s"
  have "wf_daemon (s\<lparr> joins := AList.delete d (joins s),
                      heap := (heap s)(next_id s \<mapsto> \<lparr>topicHex = t, discovery = d, ch_peers = [],
                                              messages = [], waiters = []\<rparr>),
                      channels := c,
                      next_id := Suc (next_id s) \<rparr>)"
    (is "wf_daemon ?s'") for c t
  proof (rule wf_daemonI)
    show "ids_fresh ?s'" using wf_fresh [OF w] by (auto simp: ids_fresh_def AList.delete_eq)
    fix r ch assume a: "heap ?s' r = Some ch"
    show "channel_ok ?s' r ch"
    proof (cases "r = next_id s")
      case True
      with a show ?thesis by (auto simp: channel_ok_def)
    next
      case False
      with a have "heap s r = Some ch" by simp
      from wf_channel [OF w this] show ?thesis
        by (simp add: channel_ok_def waiter_armed_def)
    qed
  qed
  from wf_out [OF same_queues_wf [OF reannounce_same this]] w show ?thesis
    by (simp add: joinFlushed_def Let_def split: option.splits)
qed

lemma wf_onPeer: "wf_daemon s \<Longrightarrow> wf_daemon (onPeer key s)"
proof -
  assume w: "wf_daemon s"
  have "wf_daemon (s\<lparr> pstore := p, peers := ps, wire := wi, next_id := Suc (next_id s) \<rparr>)"
    (is "wf_daemon ?s'") for p ps wi
  proof (rule wf_daemonI)
    show "ids_fresh ?s'" using wf_fresh [OF w] by (auto simp: ids_fresh_def)
    fix r ch assume "heap ?s' r = Some ch"
    then have "heap s r = Some ch" by simp
    from wf_channel [OF w this] show "channel_ok ?s' r ch"
      by (simp add: channel_ok_def waiter_armed_def)
  qed
  then show ?thesis by (simp add: onPeer_def Let_def)
qed

lemma wf_send: "wf_daemon s \<Longrightarrow> send now name m s = Inr (n, s') \<Longrightarrow> wf_daemon s'"
proof -
  assume w: "wf_daemon s" and s: "send now name m s = Inr (n, s')"
  then obtain payload keys where "s' = snd (send_loop payload keys 0 s)"
    by (auto simp: send_def split: option.splits) (metis snd_conv)
  with same_queues_wf [OF send_loop_same w] show ?thesis by simp
qed

lemma wf_read:
  assumes w: "wf_daemon s"
  shows "wf_daemon (exec E now sock (Read name wait timeout) s)"
proof (cases "get_channel s name")
  case None
  with w show ?thesis by (simp add: wf_out)
next
  case (Some a)
  obtain r ch where a: "a = (r, ch)" by (cases a)
  from Some a have h: "heap s r = Some ch" by (simp add: get_channel_heap)
  from wf_channel [OF w h] have ok: "channel_ok s r ch" .
  show ?thesis
  proof (cases "messages ch \<noteq> [] \<or> \<not> wait")
    case True
    have "wf_daemon (s\<lparr>heap := (heap s)(r \<mapsto> ch\<lparr>messages := []\<rparr>)\<rparr>)" (is "wf_daemon ?s'")
    proof (rule wf_daemonI)
      show "ids_fresh ?s'" using wf_fresh [OF w] by (simp add: ids_fresh_def)
      fix r' ch' assume b: "heap ?s' r' = Some ch'"
      show "channel_ok ?s' r' ch'"
      proof (cases "r' = r")
        case True
        with b ok show ?thesis by (auto simp: channel_ok_def waiter_armed_def)
      next
        case False
        with b have "heap s r' = Some ch'" by simp
        from wf_channel [OF w this] show ?thesis
          by (simp add: channel_ok_def waiter_armed_def)
      qed
    qed
    from wf_out [OF this] True show ?thesis by (simp add: Some a)
  next
    case False
    let ?t = "next_id s"
    let ?s' = "s\<lparr> timers := timers s @ [(?t, \<lparr>t_ch = r, t_sock = sock, t_delay = read_timeout timeout\<rparr>)],
                  heap := (heap s)(r \<mapsto> ch\<lparr>waiters := waiters ch @ [\<lparr>wid = ?t, w_sock = sock\<rparr>]\<rparr>),
                  next_id := Suc ?t \<rparr>"
    from wf_fresh [OF w] have fr: "?t \<notin> fst ` set (timers s)" by (auto simp: ids_fresh_def)
    have old: "waiter_armed ?s' r' x" if "waiter_armed s r' x" for r' x
      using that by (auto simp: waiter_armed_def split: option.splits)
    have lt: "wid x < ?t" if "waiter_armed s r' x" for r' x
    proof -
      from that have "wid x \<in> fst ` set (timers s)"
        by (auto simp: waiter_armed_def split: option.splits dest!: map_of_SomeD intro: rev_image_eqI)
      with wf_fresh [OF w] show ?thesis by (auto simp: ids_fresh_def)
    qed
    have "wf_daemon ?s'"
    proof (rule wf_daemonI)
      show "ids_fresh ?s'" using wf_fresh [OF w] by (auto simp: ids_fresh_def)
      fix r' ch' assume b: "heap ?s' r' = Some ch'"
      show "channel_ok ?s' r' ch'"
      proof (cases "r' = r")
        case True
        with b have c: "ch' = ch\<lparr>waiters := waiters ch @ [\<lparr>wid = ?t, w_sock = sock\<rparr>]\<rparr>" by simp
        have new: "waiter_armed ?s' r \<lparr>wid = ?t, w_sock = sock\<rparr>"
        proof -
          from fr have "map_of (timers s) ?t = None" by (simp add: map_of_eq_None_iff)
          then show ?thesis by (simp add: waiter_armed_def map_add_def)
        qed
        have "\<forall>x \<in> set (waiters ch). wid x \<noteq> ?t"
          using ok lt by (fastforce simp: channel_ok_def)
        with ok new old False show ?thesis
          by (auto simp: channel_ok_def c True)
      next
        case False
        with b have "heap s r' = Some ch'" by simp
        from wf_channel [OF w this] old show ?thesis
          by (simp add: channel_ok_def)
      qed
    qed
    with False show ?thesis by (simp add: Some a Let_def)
  qed
qed

lemma wf_exec: "wf_daemon s \<Longrightarrow> wf_daemon (exec E now sock c s)"
proof (cases c)
  case (Send name m)
  assume w: "wf_daemon s"
  show ?thesis
    using w wf_send [OF w] by (auto simp: Send wf_out split: sum.splits)
next
  case (Read name wait timeout)
  assume w: "wf_daemon s"
  show ?thesis unfolding Read by (rule wf_read [OF w])
next
  case Stop
  assume w: "wf_daemon s"
  have "same_queues s ((reply sock Ok s)\<lparr>stopping := True\<rparr>)"
    by (simp add: same_queues_def reply_def)
  from same_queues_wf [OF this w] show ?thesis by (simp add: Stop)
qed (simp_all add: wf_joinChannel wf_leaveChannel wf_out)

lemma wf_lines_loop: "wf_daemon s \<Longrightarrow> wf_daemon (lines_loop E c key b s)"
proof (induction E c key b s rule: lines_loop.induct)
  case (1 E c key b s)
  show ?case
  proof (cases "indexOf_nl b")
    case None
    with 1 show ?thesis by (simp add: lines_loop.simps)
  next
    case (Some idx)
    let ?s1 = "set_buf c (drop (Suc idx) b) s"
    let ?s2 = "(if \<not> blank (take idx b)
                then (case parse E (take idx b) of None \<Rightarrow> ?s1 | Some m \<Rightarrow> onPeerMsg key m ?s1)
                else ?s1)"
    have "wf_daemon ?s1" by (rule same_queues_wf [OF set_buf_same "1.prems"])
    then have "wf_daemon ?s2" by (simp add: wf_onPeerMsg split: option.splits)
    from "1.IH" [OF Some refl refl refl this] show ?thesis
      by (subst lines_loop.simps) (simp add: Some Let_def)
  qed
qed

lemma wf_onData: "wf_daemon s \<Longrightarrow> wf_daemon (onData E c data s)"
  by (auto simp: onData_def Let_def split: option.splits
      intro!: wf_lines_loop same_queues_wf [OF destroy_same] same_queues_wf [OF set_buf_same])

lemma wf_step: "wf_daemon s \<Longrightarrow> wf_daemon (step E e s)"
  by (cases e)
    (simp_all add: wf_exec wf_joinFlushed wf_leaveDestroyed wf_onPeer wf_onData wf_timerFired
      same_queues_wf [OF destroy_same] same_queues_wf [OF onClose_same])

lemma reachable_wf: "reachable E s \<Longrightarrow> wf_daemon s"
  by (induction rule: reachable.induct) (simp_all add: wf_init wf_step)

section \<open>How the handlers advance the state\<close>

lemma advancesI:
  assumes "next_id s \<le> next_id s'"
    and "\<And>r. heap s' r \<noteq> None \<Longrightarrow> heap s r \<noteq> None \<or> next_id s \<le> r \<and> r < next_id s'"
    and "\<And>r. r \<in> snd ` set (channels s') \<Longrightarrow> r \<in> snd ` set (channels s) \<or> next_id s \<le> r \<and> r < next_id s'"
    and "\<And>t. t \<in> fst ` set (timers s') \<Longrightarrow> t \<in> fst ` set (timers s) \<or> next_id s \<le> t \<and> t < next_id s'"
    and "refs_ok s \<Longrightarrow> distinct (map snd (channels s'))"
  shows "advances s s'"
  unfolding advances_def using assms by (intro conjI allI ballI impI)

lemma advances_next: "advances s s' \<Longrightarrow> next_id s \<le> next_id s'"
  by (simp add: advances_def)

lemma advances_heap:
  "advances s s' \<Longrightarrow> heap s' r \<noteq> None \<Longrightarrow> heap s r \<noteq> None \<or> next_id s \<le> r \<and> r < next_id s'"
  by (simp add: advances_def)

lemma advances_channels:
  "advances s s' \<Longrightarrow> r \<in> snd ` set (channels s') \<Longrightarrow>
   r \<in> snd ` set (channels s) \<or> next_id s \<le> r \<and> r < next_id s'"
  unfolding advances_def by (elim conjE) (erule bspec)

lemma advances_timers:
  "advances s s' \<Longrightarrow> t \<in> fst ` set (timers s') \<Longrightarrow>
   t \<in> fst ` set (timers s) \<or> next_id s \<le> t \<and> t < next_id s'"
  unfolding advances_def by (elim conjE) (erule bspec)

lemma advances_distinct: "advances s s' \<Longrightarrow> refs_ok s \<Longrightarrow> distinct (map snd (channels s'))"
  by (simp add: advances_def)

lemma refs_heap: "refs_ok s \<Longrightarrow> heap s r = Some ch \<Longrightarrow> r < next_id s"
  unfolding refs_ok_def by blast

lemma refs_channels: "refs_ok s \<Longrightarrow> r \<in> snd ` set (channels s) \<Longrightarrow> r < next_id s"
  unfolding refs_ok_def by blast

lemma refs_distinct: "refs_ok s \<Longrightarrow> distinct (map snd (channels s))"
  by (simp add: refs_ok_def)

lemma advances_refl: "advances s s"
  by (rule advancesI) (simp_all add: refs_distinct)

lemma advances_refs:
  assumes a: "advances s s'" and r: "refs_ok s"
  shows "refs_ok s'"
  unfolding refs_ok_def
proof (intro conjI allI impI ballI)
  fix x ch assume "heap s' x = Some ch"
  then have "heap s' x \<noteq> None" by simp
  from advances_heap [OF a this] show "x < next_id s'"
  proof
    assume "heap s x \<noteq> None"
    then obtain c where "heap s x = Some c" by blast
    from refs_heap [OF r this] advances_next [OF a] show ?thesis by simp
  qed simp
next
  fix x assume "x \<in> snd ` set (channels s')"
  from advances_channels [OF a this] show "x < next_id s'"
  proof
    assume "x \<in> snd ` set (channels s)"
    from refs_channels [OF r this] advances_next [OF a] show ?thesis by simp
  qed simp
next
  show "distinct (map snd (channels s'))" by (rule advances_distinct [OF a r])
qed

lemma advances_trans:
  assumes a: "advances s s'" and b: "advances s' s''"
  shows "advances s s''"
proof (rule advancesI)
  note n1 = advances_next [OF a] and n2 = advances_next [OF b]
  show "next_id s \<le> next_id s''" using n1 n2 by simp
  show "heap s r \<noteq> None \<or> next_id s \<le> r \<and> r < next_id s''" if "heap s'' r \<noteq> None" for r
    using advances_heap [OF b that] advances_heap [OF a, of r] n1 n2 by auto
  show "r \<in> snd ` set (channels s) \<or> next_id s \<le> r \<and> r < next_id s''"
    if "r \<in> snd ` set (channels s'')" for r
    using advances_channels [OF b that]
  proof
    assume "r \<in> snd ` set (channels s')"
    from advances_channels [OF a this] n2 show ?thesis by auto
  next
    assume "next_id s' \<le> r \<and> r < next_id s''"
    with n1 show ?thesis by simp
  qed
  show "t \<in> fst ` set (timers s) \<or> next_id s \<le> t \<and> t < next_id s''"
    if "t \<in> fst ` set (timers s'')" for t
    using advances_timers [OF b that]
  proof
    assume "t \<in> fst ` set (timers s')"
    from advances_timers [OF a this] n2 show ?thesis by auto
  next
    assume "next_id s' \<le> t \<and> t < next_id s''"
    with n1 show ?thesis by simp
  qed
  show "distinct (map snd (channels s''))" if "refs_ok s"
    by (rule advances_distinct [OF b advances_refs [OF a that]])
qed

lemma same_queues_advances:
  assumes q: "same_queues s s'"
  shows "advances s s'"
proof (rule advancesI)
  from q have eqs: "timers s' = timers s" "next_id s' = next_id s" "channels s' = channels s"
    and h: "map_option queues (heap s' r) = map_option queues (heap s r)" for r
    by (simp_all add: same_queues_def)
  show "next_id s \<le> next_id s'" by (simp add: eqs)
  show "heap s r \<noteq> None \<or> next_id s \<le> r \<and> r < next_id s'" if "heap s' r \<noteq> None" for r
    using that h [of r] by (cases "heap s r") auto
  show "r \<in> snd ` set (channels s) \<or> next_id s \<le> r \<and> r < next_id s'"
    if "r \<in> snd ` set (channels s')" for r using that by (simp add: eqs)
  show "t \<in> fst ` set (timers s) \<or> next_id s \<le> t \<and> t < next_id s'"
    if "t \<in> fst ` set (timers s')" for t using that by (simp add: eqs)
  show "distinct (map snd (channels s'))" if "refs_ok s"
    using refs_distinct [OF that] by (simp add: eqs)
qed

lemma advances_fields:
  assumes "next_id s \<le> next_id s'" and "heap s' = heap s" and "channels s' = channels s"
    and "timers s' = timers s"
  shows "advances s s'"
  by (rule advancesI) (simp_all add: assms refs_distinct)

lemma advances_reply: "advances s (reply sock d s)"
  by (rule same_queues_advances [OF out_same])

lemma advances_joinChannel: "advances s (joinChannel E sock name secret s)"
  by (auto simp: joinChannel_def Let_def advances_reply split: sum.splits
      intro!: advances_fields)

lemma advances_leaveChannel: "advances s (leaveChannel sock name s)"
  by (auto simp: leaveChannel_def advances_reply split: option.splits intro!: advances_fields)

lemma advances_onPeer: "advances s (onPeer key s)"
  by (auto simp: onPeer_def Let_def intro!: advances_fields)

lemma delete_keys: "fst ` set (AList.delete k al) \<subseteq> fst ` set al"
  by (auto simp: AList.delete_eq)

lemma delete_vals: "snd ` set (AList.delete k al) \<subseteq> snd ` set al"
  by (auto simp: AList.delete_eq)

lemma delete_distinct_vals: "distinct (map snd al) \<Longrightarrow> distinct (map snd (AList.delete k al))"
  by (simp add: AList.delete_eq distinct_map_filter)

lemma update_vals: "snd ` set (AList.update k v al) \<subseteq> insert v (snd ` set al)"
  by (induction al) auto

lemma update_distinct_vals:
  "distinct (map snd al) \<Longrightarrow> v \<notin> snd ` set al \<Longrightarrow> distinct (map snd (AList.update k v al))"
proof (induction al)
  case Nil
  show ?case by simp
next
  case (Cons a al)
  obtain k' v' where a: "a = (k', v')" by (cases a)
  from Cons.prems have d: "distinct (map snd al)" and n: "v' \<notin> snd ` set al"
    and v: "v \<notin> snd ` set al" and ne: "v \<noteq> v'" by (auto simp: a)
  show ?case
  proof (cases "k' = k")
    case True
    with d v show ?thesis by (simp add: a)
  next
    case False
    from update_vals [of k v al] n ne have "v' \<notin> snd ` set (AList.update k v al)" by auto
    with False Cons.IH [OF d v] show ?thesis by (simp add: a)
  qed
qed

lemma advances_leaveDestroyed: "advances s (leaveDestroyed l s)"
proof (cases "map_of (leaves s) l")
  case None
  then show ?thesis by (simp add: leaveDestroyed_def advances_refl)
next
  case (Some p)
  let ?s1 = "s\<lparr> leaves := AList.delete l (leaves s), channels := AList.delete (l_name p) (channels s) \<rparr>"
  have "advances s ?s1"
  proof (rule advancesI)
    show "r \<in> snd ` set (channels s) \<or> next_id s \<le> r \<and> r < next_id ?s1"
      if "r \<in> snd ` set (channels ?s1)" for r
      using that delete_vals [of "l_name p" "channels s"] by auto
    show "distinct (map snd (channels ?s1))" if "refs_ok s"
      using refs_distinct [OF that] by (simp add: delete_distinct_vals)
  qed simp_all
  from advances_trans [OF this advances_reply] show ?thesis
    by (simp add: leaveDestroyed_def Some)
qed

lemma advances_joinFlushed: "advances s (joinFlushed d s)"
proof (cases "map_of (joins s) d")
  case None
  then show ?thesis by (simp add: joinFlushed_def advances_refl)
next
  case (Some j)
  let ?s1 = "s\<lparr> joins := AList.delete d (joins s),
                heap := (heap s)(next_id s \<mapsto> \<lparr>topicHex = j_topic j, discovery = d, ch_peers = [],
                                              messages = [], waiters = []\<rparr>),
                channels := AList.update (j_name j) (next_id s) (channels s),
                next_id := Suc (next_id s) \<rparr>"
  have "advances s ?s1"
  proof (rule advancesI)
    show "r \<in> snd ` set (channels s) \<or> next_id s \<le> r \<and> r < next_id ?s1"
      if "r \<in> snd ` set (channels ?s1)" for r
      using that update_vals [of "j_name j" "next_id s" "channels s"] by auto
    show "distinct (map snd (channels ?s1))" if r: "refs_ok s"
    proof -
      from refs_channels [OF r] have "next_id s \<notin> snd ` set (channels s)" by blast
      with refs_distinct [OF r] show ?thesis by (simp add: update_distinct_vals)
    qed
  qed auto
  from advances_trans [OF advances_trans [OF this same_queues_advances [OF reannounce_same]] advances_reply]
  show ?thesis by (simp add: joinFlushed_def Some Let_def)
qed

lemma advances_deliver:
  assumes h: "heap s r = Some ch"
  shows "advances s (deliver r ch e s)"
proof (cases "waiters ch")
  case Nil
  have "advances s (s\<lparr>heap := (heap s)(r \<mapsto> ch\<lparr>messages := messages ch @ [e]\<rparr>)\<rparr>)"
    by (rule advancesI) (auto simp: h refs_distinct split: if_splits)
  then show ?thesis by (simp add: deliver_def Nil)
next
  case (Cons w ws)
  let ?s1 = "s\<lparr> heap := (heap s)(r \<mapsto> ch\<lparr>waiters := ws\<rparr>),
                timers := AList.delete (wid w) (timers s) \<rparr>"
  have "advances s ?s1"
  proof (rule advancesI)
    show "t \<in> fst ` set (timers s) \<or> next_id s \<le> t \<and> t < next_id ?s1"
      if "t \<in> fst ` set (timers ?s1)" for t
      using that delete_keys [of "wid w" "timers s"] by auto
  qed (auto simp: h refs_distinct split: if_splits)
  from advances_trans [OF this advances_reply] show ?thesis by (simp add: deliver_def Cons)
qed

lemma advances_route: "advances s (route key topic data i ts s)"
  by (auto simp: route_def advances_refl split: option.splits
      intro: advances_deliver dest: find_topic_heap)

lemma advances_onPeerMsg: "advances s (onPeerMsg key m s)"
proof (cases m)
  case (FHello T i)
  have p: "same_queues s (s\<lparr>pstore := x\<rparr>)" for x by (simp add: same_queues_def)
  show ?thesis
    using same_queues_advances [OF same_queues_trans [OF p match_topics_same]]
    by (auto simp: FHello advances_refl split: option.splits)
next
  case (FMsg topic data i ts)
  show ?thesis by (auto simp: FMsg advances_refl advances_route split: option.splits)
next
  case FOther
  show ?thesis by (simp add: FOther advances_refl)
qed

lemma advances_timerFired: "advances s (timerFired t s)"
proof (cases "map_of (timers s) t")
  case None
  then show ?thesis by (simp add: timerFired_def advances_refl)
next
  case (Some tm)
  let ?s1 = "s\<lparr>timers := AList.delete t (timers s)\<rparr>"
  let ?s2 = "case heap ?s1 (t_ch tm) of
               None \<Rightarrow> ?s1
             | Some ch \<Rightarrow> ?s1\<lparr>heap := (heap ?s1)(t_ch tm \<mapsto>
                              ch\<lparr>waiters := filter (\<lambda>w. wid w \<noteq> t) (waiters ch)\<rparr>)\<rparr>"
  have "advances s ?s2"
  proof (rule advancesI)
    show "x \<in> fst ` set (timers s) \<or> next_id s \<le> x \<and> x < next_id ?s2"
      if "x \<in> fst ` set (timers ?s2)" for x
      using that delete_keys [of t "timers s"] by (auto split: option.splits)
    show "distinct (map snd (channels ?s2))" if "refs_ok s"
      using refs_distinct [OF that] by (simp split: option.splits)
  qed (auto split: option.splits if_splits)
  from advances_trans [OF this advances_reply] show ?thesis
    by (simp add: timerFired_def Some Let_def)
qed

lemma advances_send: "send now name m s = Inr (n, s') \<Longrightarrow> advances s s'"
proof -
  assume "send now name m s = Inr (n, s')"
  then obtain payload keys where "s' = snd (send_loop payload keys 0 s)"
    by (auto simp: send_def split: option.splits) (metis snd_conv)
  with same_queues_advances [OF send_loop_same] show ?thesis by simp
qed

lemma advances_read: "advances s (exec E now sock (Read name wait timeout) s)"
proof (cases "get_channel s name")
  case None
  then show ?thesis by (simp add: advances_reply)
next
  case (Some a)
  obtain r ch where a: "a = (r, ch)" by (cases a)
  from Some a have h: "heap s r = Some ch" by (simp add: get_channel_heap)
  show ?thesis
  proof (cases "messages ch \<noteq> [] \<or> \<not> wait")
    case True
    have "advances s (s\<lparr>heap := (heap s)(r \<mapsto> ch\<lparr>messages := []\<rparr>)\<rparr>)"
      by (rule advancesI) (auto simp: h refs_distinct split: if_splits)
    from advances_trans [OF this advances_reply] True show ?thesis by (simp add: Some a)
  next
    case False
    have "advances s (s\<lparr> timers := timers s @ [(next_id s, tm)],
                  heap := (heap s)(r \<mapsto> ch'), next_id := Suc (next_id s) \<rparr>)" for tm ch'
      by (rule advancesI) (auto simp: h refs_distinct split: if_splits)
    with False show ?thesis by (simp add: Some a Let_def)
  qed
qed

lemma advances_exec: "advances s (exec E now sock c s)"
proof (cases c)
  case (Send name m)
  show ?thesis
    using advances_send [THEN advances_trans, OF _ advances_reply]
    by (auto simp: Send advances_reply split: sum.splits)
next
  case Stop
  have "same_queues s ((reply sock Ok s)\<lparr>stopping := True\<rparr>)"
    by (simp add: same_queues_def reply_def)
  then show ?thesis by (simp add: Stop same_queues_advances)
next
  case (Read name wait timeout)
  show ?thesis unfolding Read by (rule advances_read)
qed (simp_all add: advances_joinChannel advances_leaveChannel advances_reply)

lemma advances_lines_loop: "advances s (lines_loop E c key b s)"
proof (induction E c key b s rule: lines_loop.induct)
  case (1 E c key b s)
  show ?case
  proof (cases "indexOf_nl b")
    case None
    then show ?thesis by (simp add: lines_loop.simps advances_refl)
  next
    case (Some idx)
    let ?s1 = "set_buf c (drop (Suc idx) b) s"
    let ?s2 = "if \<not> blank (take idx b)
               then (case parse E (take idx b) of None \<Rightarrow> ?s1 | Some m \<Rightarrow> onPeerMsg key m ?s1)
               else ?s1"
    have a1: "advances s ?s1" by (rule same_queues_advances [OF set_buf_same])
    have "advances ?s1 ?s2" by (simp add: advances_refl advances_onPeerMsg split: option.splits)
    from advances_trans [OF a1 this] have a2: "advances s ?s2" .
    have "advances ?s2 (lines_loop E c key (drop (Suc idx) b) ?s2)"
      by (rule "1.IH" [OF Some refl refl refl])
    from advances_trans [OF a2 this] show ?thesis
      by (subst lines_loop.simps) (simp add: Some Let_def)
  qed
qed

lemma advances_onData: "advances s (onData E c data s)"
proof (cases "pstore s c")
  case None
  then show ?thesis by (simp add: onData_def advances_refl)
next
  case (Some p)
  note a = same_queues_advances [OF set_buf_same, of s c "buf p @ data"]
  show ?thesis
    using advances_trans [OF a same_queues_advances [OF destroy_same]]
      advances_trans [OF a advances_lines_loop]
    by (simp add: onData_def Some Let_def advances_refl)
qed

lemma advances_step: "advances s (step E e s)"
  by (cases e)
    (simp_all add: advances_exec advances_joinFlushed advances_leaveDestroyed advances_onPeer
      advances_onData advances_timerFired same_queues_advances [OF destroy_same]
      same_queues_advances [OF onClose_same])

lemma advances_run: "advances s (run E evs s)"
proof (induction evs arbitrary: s)
  case Nil
  show ?case by (simp add: run_def advances_refl)
next
  case (Cons e evs)
  from advances_trans [OF advances_step Cons.IH [of "step E e s"]]
  show ?case by (simp add: run_def)
qed

lemma refs_init: "refs_ok (init i)"
  by (simp add: refs_ok_def init_def)

lemma visited_inv: "visited E s \<Longrightarrow> wf_daemon s \<and> refs_ok s"
proof (induction rule: visited.induct)
  case (visited_init i)
  show ?case by (simp add: wf_init refs_init)
next
  case (visited_step s e)
  then show ?case by (simp add: wf_step advances_refs [OF advances_step])
next
  case (visited_buf s c b)
  then show ?case
    by (simp add: same_queues_wf [OF set_buf_same] advances_refs [OF same_queues_advances [OF set_buf_same]])
next
  case (visited_msg s key m)
  then show ?case by (simp add: wf_onPeerMsg advances_refs [OF advances_onPeerMsg])
qed

lemma reachable_visited: "reachable E s \<Longrightarrow> visited E s"
  by (induction rule: reachable.induct) (simp_all add: visited_init visited_step)

lemma visited_run: "visited E s \<Longrightarrow> visited E (run E evs s)"
  by (induction evs arbitrary: s) (simp_all add: run_def visited_step)

lemma reachable_refs: "reachable E s \<Longrightarrow> refs_ok s"
  using visited_inv [OF reachable_visited] by simp


section \<open>Suspended and resolved reads\<close>

lemma suspendedI:
  assumes w: "wf_daemon s" and h: "heap s r = Some ch" and m: "w \<in> set (waiters ch)"
  shows "suspended s r w"
  using wf_channel [OF w h] h m by (simp add: suspended_def channel_ok_def)

lemma suspendedD: "suspended s r w \<Longrightarrow> \<exists>ch. heap s r = Some ch \<and> w \<in> set (waiters ch)"
  by (auto simp: suspended_def split: option.splits)

lemma suspended_armed: "suspended s r w \<Longrightarrow> waiter_armed s r w"
  by (simp add: suspended_def)

lemma suspended_pending:
  "suspended s r w \<Longrightarrow>
   \<exists>tm. map_of (timers s) (wid w) = Some tm \<and> t_ch tm = r \<and> t_sock tm = w_sock w"
  by (auto simp: suspended_def waiter_armed_def split: option.splits)

lemma suspended_not_resolved: "suspended s r w \<Longrightarrow> \<not> resolved s (wid w)"
  by (auto simp: resolved_def dest: suspended_pending)

lemma suspended_fields:
  "heap s' = heap s \<Longrightarrow> timers s' = timers s \<Longrightarrow> suspended s' r w = suspended s r w"
  by (simp add: suspended_def waiter_armed_def)

lemma same_queues_suspended:
  assumes q: "same_queues s s'"
  shows "suspended s' r w = suspended s r w"
proof -
  from q have t: "timers s' = timers s"
    and h: "map_option queues (heap s' r) = map_option queues (heap s r)"
    by (simp_all add: same_queues_def)
  from h have "(case heap s' r of None \<Rightarrow> False | Some ch \<Rightarrow> w \<in> set (waiters ch))
             = (case heap s r of None \<Rightarrow> False | Some ch \<Rightarrow> w \<in> set (waiters ch))"
    by (cases "heap s r"; cases "heap s' r") (auto simp: queues_def)
  then show ?thesis by (simp add: suspended_def waiter_armed_def t)
qed

lemma resolved_advances:
  assumes a: "advances s s'" and r: "resolved s t"
  shows "resolved s' t"
proof -
  from r have lt: "t < next_id s" and n: "map_of (timers s) t = None" by (simp_all add: resolved_def)
  from n have nk: "t \<notin> fst ` set (timers s)" by (simp add: map_of_eq_None_iff)
  have "t \<notin> fst ` set (timers s')"
  proof
    assume "t \<in> fst ` set (timers s')"
    from advances_timers [OF a this] nk lt show False by auto
  qed
  then have "map_of (timers s') t = None" by (simp add: map_of_eq_None_iff)
  with lt advances_next [OF a] show ?thesis by (simp add: resolved_def)
qed

lemma resolved_unqueued:
  assumes w: "wf_daemon s" and r: "resolved s t" and h: "heap s r = Some ch"
  shows "t \<notin> wid ` set (waiters ch)"
proof
  assume "t \<in> wid ` set (waiters ch)"
  then obtain x where x: "x \<in> set (waiters ch)" and t: "wid x = t" by auto
  from suspended_not_resolved [OF suspendedI [OF w h x]] r t show False by simp
qed

lemma map_of_delete_same: "map_of (AList.delete k al) k = None"
  by (induction al) auto

lemma pending_resolved:
  assumes w: "wf_daemon s" and p: "map_of (timers s) t = Some tm"
  shows "resolved (s\<lparr>timers := AList.delete t (timers s), heap := h, out := x\<rparr>) t"
proof -
  from p have "t \<in> fst ` set (timers s)" by (metis map_of_eq_None_iff option.distinct(1))
  with wf_fresh [OF w] have "t < next_id s" unfolding ids_fresh_def by blast
  then show ?thesis by (simp add: resolved_def map_of_delete_same)
qed

lemma orphan_advances:
  assumes a: "advances s s'" and lt: "r < next_id s" and o: "r \<notin> snd ` set (channels s)"
  shows "r \<notin> snd ` set (channels s')"
proof
  assume "r \<in> snd ` set (channels s')"
  from advances_channels [OF a this] o lt show False by auto
qed

lemma topic_loop_registered: "topic_loop h topic cs = Some (r, ch) \<Longrightarrow> r \<in> snd ` set cs"
  by (induction cs) (auto split: option.splits if_splits)

lemma find_topic_registered: "find_topic s topic = Some (r, ch) \<Longrightarrow> r \<in> snd ` set (channels s)"
  unfolding find_topic_def by (rule topic_loop_registered)

lemma map_of_delete_other: "k \<noteq> k' \<Longrightarrow> map_of (AList.delete k al) k' = map_of al k'"
  by (induction al) auto

text \<open>The timer of a suspended read fires.\<close>

lemma timerFired_suspended:
  assumes w: "wf_daemon s" and su: "suspended s r w"
  obtains ch where "heap s r = Some ch" and "w \<in> set (waiters ch)"
    and "timerFired (wid w) s
       = s\<lparr> timers := AList.delete (wid w) (timers s),
             heap := (heap s)(r \<mapsto> ch\<lparr>waiters := filter (\<lambda>x. x \<noteq> w) (waiters ch)\<rparr>),
             out := out s @ [(w_sock w, OkMessages [])] \<rparr>"
proof -
  from suspendedD [OF su] obtain ch where h: "heap s r = Some ch" and m: "w \<in> set (waiters ch)"
    by blast
  from suspended_pending [OF su] obtain tm where p: "map_of (timers s) (wid w) = Some tm"
    and tm: "t_ch tm = r" "t_sock tm = w_sock w" by blast
  from wf_channel [OF w h] have d: "distinct (map wid (waiters ch))" by (simp add: channel_ok_def)
  have "x \<noteq> w \<longleftrightarrow> wid x \<noteq> wid w" if "x \<in> set (waiters ch)" for x
    using d m that by (auto simp: distinct_map inj_on_def)
  then have f: "filter (\<lambda>x. wid x \<noteq> wid w) (waiters ch) = filter (\<lambda>x. x \<noteq> w) (waiters ch)"
    by (auto intro: filter_cong)
  have "timerFired (wid w) s
       = s\<lparr> timers := AList.delete (wid w) (timers s),
             heap := (heap s)(r \<mapsto> ch\<lparr>waiters := filter (\<lambda>x. x \<noteq> w) (waiters ch)\<rparr>),
             out := out s @ [(w_sock w, OkMessages [])] \<rparr>"
    by (simp add: timerFired_def p tm h f reply_def)
  with h m that show thesis by blast
qed

lemma timerFired_other:
  assumes ne: "t \<noteq> wid w" and su: "suspended s r w"
  shows "suspended (timerFired t s) r w"
proof (cases "map_of (timers s) t")
  case None
  with su show ?thesis by (simp add: timerFired_def)
next
  case (Some tm)
  from suspendedD [OF su] obtain ch where h: "heap s r = Some ch" and m: "w \<in> set (waiters ch)"
    by blast
  from suspended_armed [OF su] have a: "waiter_armed s r w" .
  from ne have k: "map_of (AList.delete t (timers s)) (wid w) = map_of (timers s) (wid w)"
    by (rule map_of_delete_other)
  show ?thesis
    using h m a ne
    by (auto simp: timerFired_def Some Let_def reply_def suspended_def waiter_armed_def k
        split: option.splits)
qed

text \<open>An entry is handed to a channel object.\<close>

lemma deliver_other:
  assumes w: "wf_daemon s" and su: "suspended s r w" and h': "heap s r' = Some ch'"
    and ne: "\<not> (r' = r \<and> take 1 (waiters ch') = [w])"
  shows "suspended (deliver r' ch' e s) r w"
proof -
  from suspendedD [OF su] obtain ch where h: "heap s r = Some ch" and m: "w \<in> set (waiters ch)"
    by blast
  note a = suspended_armed [OF su]
  show ?thesis
  proof (cases "waiters ch'")
    case Nil
    then show ?thesis
      using h h' m a by (auto simp: deliver_def suspended_def waiter_armed_def)
  next
    case (Cons x xs)
    from wf_channel [OF w h'] Cons have ax: "waiter_armed s r' x"
      and d: "distinct (map wid (x # xs))" by (simp_all add: channel_ok_def)
    have nw: "wid x \<noteq> wid w"
    proof
      assume e: "wid x = wid w"
      from armed_unique [OF ax a e] have r: "r' = r" .
      with h h' have c: "ch' = ch" by simp
      from m c Cons d e have "x = w" by (auto simp: distinct_map inj_on_def)
      with ne r Cons show False by simp
    qed
    then have nx: "x \<noteq> w" by auto
    from nw have k: "map_of (AList.delete (wid x) (timers s)) (wid w) = map_of (timers s) (wid w)"
      by (rule map_of_delete_other)
    have "w \<in> set xs" if "r' = r"
      using that h h' m Cons nx by auto
    then show ?thesis
      using h h' m a
      by (auto simp: deliver_def Cons reply_def suspended_def waiter_armed_def k)
  qed
qed

lemma deliver_head:
  assumes w: "wf_daemon s" and su: "suspended s r w" and h: "heap s r = Some ch"
    and c: "waiters ch = w # ws"
  shows "deliver r ch e s
       = s\<lparr> heap := (heap s)(r \<mapsto> ch\<lparr>waiters := ws\<rparr>),
             timers := AList.delete (wid w) (timers s),
             out := out s @ [(w_sock w, OkMessages [e])] \<rparr>"
    and "resolved (deliver r ch e s) (wid w)"
proof -
  show 1: "deliver r ch e s
       = s\<lparr> heap := (heap s)(r \<mapsto> ch\<lparr>waiters := ws\<rparr>),
             timers := AList.delete (wid w) (timers s),
             out := out s @ [(w_sock w, OkMessages [e])] \<rparr>"
    by (simp add: deliver_def c reply_def)
  from suspended_pending [OF su] obtain tm where p: "map_of (timers s) (wid w) = Some tm" by blast
  from pending_resolved [OF w p] show "resolved (deliver r ch e s) (wid w)"
    unfolding 1 by (simp add: resolved_def)
qed

lemma route_cases:
  assumes w: "wf_daemon s" and su: "suspended s r w"
  shows "suspended (route key topic data i ts s) r w \<or> resolved (route key topic data i ts s) (wid w)"
proof (cases "find_topic s topic")
  case None
  with su show ?thesis by (simp add: route_def)
next
  case (Some a)
  obtain r' ch' where a: "a = (r', ch')" by (cases a)
  from Some a have h': "heap s r' = Some ch'" by (simp add: find_topic_heap)
  let ?e = "\<lparr>e_from = (if i \<noteq> [] then i else take 8 key), e_data = data, e_ts = ts\<rparr>"
  have r: "route key topic data i ts s = deliver r' ch' ?e s" by (simp add: route_def Some a)
  show ?thesis
  proof (cases "r' = r \<and> take 1 (waiters ch') = [w]")
    case False
    from deliver_other [OF w su h' False] show ?thesis by (simp add: r)
  next
    case True
    then obtain ws where c: "waiters ch' = w # ws" by (cases "waiters ch'") auto
    from True h' have h: "heap s r = Some ch'" by simp
    from deliver_head(2) [OF w su h c] True show ?thesis by (simp add: r)
  qed
qed

lemma route_orphan:
  assumes w: "wf_daemon s" and su: "suspended s r w" and o: "r \<notin> snd ` set (channels s)"
  shows "suspended (route key topic data i ts s) r w"
proof (cases "find_topic s topic")
  case None
  with su show ?thesis by (simp add: route_def)
next
  case (Some a)
  obtain r' ch' where a: "a = (r', ch')" by (cases a)
  from Some a have h': "heap s r' = Some ch'" by (simp add: find_topic_heap)
  from Some a o have "r' \<noteq> r" by (auto dest: find_topic_registered)
  then have "\<not> (r' = r \<and> take 1 (waiters ch') = [w])" by simp
  from deliver_other [OF w su h' this] show ?thesis by (simp add: route_def Some a)
qed

lemma onPeerMsg_hello_same: "same_queues s (onPeerMsg key (FHello T i) s)"
proof -
  have p: "same_queues s (s\<lparr>pstore := x\<rparr>)" for x by (simp add: same_queues_def)
  show ?thesis
    using same_queues_trans [OF p match_topics_same]
    by (auto simp: same_queues_refl split: option.splits)
qed

lemma onPeerMsg_cases:
  assumes w: "wf_daemon s" and su: "suspended s r w"
  shows "suspended (onPeerMsg key m s) r w \<or> resolved (onPeerMsg key m s) (wid w)"
proof (cases m)
  case (FHello T i)
  from su have "suspended (onPeerMsg key (FHello T i) s) r w"
    by (simp only: same_queues_suspended [OF onPeerMsg_hello_same])
  then show ?thesis unfolding FHello ..
next
  case (FMsg topic data i ts)
  from route_cases [OF w su] su show ?thesis by (auto simp: FMsg split: option.splits)
next
  case FOther
  with su show ?thesis by simp
qed

lemma onPeerMsg_orphan:
  assumes w: "wf_daemon s" and su: "suspended s r w" and o: "r \<notin> snd ` set (channels s)"
  shows "suspended (onPeerMsg key m s) r w"
proof (cases m)
  case (FHello T i)
  from su show ?thesis unfolding FHello by (simp only: same_queues_suspended [OF onPeerMsg_hello_same])
next
  case (FMsg topic data i ts)
  from route_orphan [OF w su o] su show ?thesis by (auto simp: FMsg split: option.splits)
next
  case FOther
  with su show ?thesis by simp
qed

lemma lines_loop_cases:
  "wf_daemon s \<Longrightarrow> suspended s r w \<or> resolved s (wid w) \<Longrightarrow>
   suspended (lines_loop E c key b s) r w \<or> resolved (lines_loop E c key b s) (wid w)"
proof (induction E c key b s rule: lines_loop.induct)
  case (1 E c key b s)
  show ?case
  proof (cases "indexOf_nl b")
    case None
    with 1 show ?thesis by (simp add: lines_loop.simps)
  next
    case (Some idx)
    let ?s1 = "set_buf c (drop (Suc idx) b) s"
    let ?s2 = "if \<not> blank (take idx b)
               then (case parse E (take idx b) of None \<Rightarrow> ?s1 | Some m \<Rightarrow> onPeerMsg key m ?s1)
               else ?s1"
    have w1: "wf_daemon ?s1" by (rule same_queues_wf [OF set_buf_same "1.prems"(1)])
    have c1: "suspended ?s1 r w \<or> resolved ?s1 (wid w)"
      using "1.prems"(2) resolved_advances [OF same_queues_advances [OF set_buf_same]]
      by (auto simp: same_queues_suspended [OF set_buf_same])
    have w2: "wf_daemon ?s2" using w1 by (simp add: wf_onPeerMsg split: option.splits)
    have c2: "suspended ?s2 r w \<or> resolved ?s2 (wid w)"
      using c1 onPeerMsg_cases [OF w1] resolved_advances [OF advances_onPeerMsg]
      by (auto split: option.splits)
    from "1.IH" [OF Some refl refl refl w2 c2] show ?thesis
      by (subst (1 2) lines_loop.simps) (simp add: Some Let_def)
  qed
qed

lemma lines_loop_orphan:
  "wf_daemon s \<Longrightarrow> refs_ok s \<Longrightarrow> suspended s r w \<Longrightarrow> r \<notin> snd ` set (channels s) \<Longrightarrow>
   suspended (lines_loop E c key b s) r w"
proof (induction E c key b s rule: lines_loop.induct)
  case (1 E c key b s)
  show ?case
  proof (cases "indexOf_nl b")
    case None
    with 1 show ?thesis by (simp add: lines_loop.simps)
  next
    case (Some idx)
    let ?s1 = "set_buf c (drop (Suc idx) b) s"
    let ?s2 = "if \<not> blank (take idx b)
               then (case parse E (take idx b) of None \<Rightarrow> ?s1 | Some m \<Rightarrow> onPeerMsg key m ?s1)
               else ?s1"
    from suspendedD [OF "1.prems"(3)] refs_heap [OF "1.prems"(2)] have lt: "r < next_id s" by blast
    have w1: "wf_daemon ?s1" by (rule same_queues_wf [OF set_buf_same "1.prems"(1)])
    have a1: "advances s ?s1" by (rule same_queues_advances [OF set_buf_same])
    have c1: "suspended ?s1 r w"
      using "1.prems"(3) by (simp add: same_queues_suspended [OF set_buf_same])
    have o1: "r \<notin> snd ` set (channels ?s1)" by (rule orphan_advances [OF a1 lt "1.prems"(4)])
    have a2: "advances ?s1 ?s2" by (simp add: advances_refl advances_onPeerMsg split: option.splits)
    note a12 = advances_trans [OF a1 a2]
    have w2: "wf_daemon ?s2" using w1 by (simp add: wf_onPeerMsg split: option.splits)
    have c2: "suspended ?s2 r w"
      using c1 onPeerMsg_orphan [OF w1 c1 o1] by (auto split: option.splits)
    have o2: "r \<notin> snd ` set (channels ?s2)" by (rule orphan_advances [OF a12 lt "1.prems"(4)])
    from "1.IH" [OF Some refl refl refl w2 advances_refs [OF a12 "1.prems"(2)] c2 o2]
    show ?thesis by (subst lines_loop.simps) (simp add: Some Let_def)
  qed
qed

lemma onData_cases:
  assumes w: "wf_daemon s" and su: "suspended s r w"
  shows "suspended (onData E c data s) r w \<or> resolved (onData E c data s) (wid w)"
proof (cases "pstore s c")
  case None
  with su show ?thesis by (simp add: onData_def)
next
  case (Some p)
  let ?s1 = "set_buf c (buf p @ data) s"
  have w1: "wf_daemon ?s1" by (rule same_queues_wf [OF set_buf_same w])
  have c1: "suspended ?s1 r w" using su by (simp add: same_queues_suspended [OF set_buf_same])
  have d: "suspended (destroy c ?s1) r w"
    using c1 by (simp add: same_queues_suspended [OF destroy_same])
  from lines_loop_cases [OF w1, of r w] c1 d su show ?thesis
    by (simp add: onData_def Some Let_def)
qed

lemma onData_orphan:
  assumes w: "wf_daemon s" and rf: "refs_ok s" and su: "suspended s r w"
    and o: "r \<notin> snd ` set (channels s)"
  shows "suspended (onData E c data s) r w"
proof (cases "pstore s c")
  case None
  with su show ?thesis by (simp add: onData_def)
next
  case (Some p)
  let ?s1 = "set_buf c (buf p @ data) s"
  from suspendedD [OF su] refs_heap [OF rf] have lt: "r < next_id s" by blast
  note a1 = same_queues_advances [OF set_buf_same, of s c "buf p @ data"]
  have w1: "wf_daemon ?s1" by (rule same_queues_wf [OF set_buf_same w])
  have c1: "suspended ?s1 r w" using su by (simp add: same_queues_suspended [OF set_buf_same])
  have d: "suspended (destroy c ?s1) r w"
    using c1 by (simp add: same_queues_suspended [OF destroy_same])
  from lines_loop_orphan [OF w1 advances_refs [OF a1 rf] c1 orphan_advances [OF a1 lt o]] d su
  show ?thesis by (simp add: onData_def Some Let_def)
qed

text \<open>The other events resolve no read.\<close>

lemma suspended_read:
  assumes su: "suspended s r w"
  shows "suspended (exec E now sock (Read name wait timeout) s) r w"
proof (cases "get_channel s name")
  case None
  with su show ?thesis by (simp add: same_queues_suspended [OF out_same])
next
  case (Some a)
  obtain r' ch' where a: "a = (r', ch')" by (cases a)
  from Some a have h': "heap s r' = Some ch'" by (simp add: get_channel_heap)
  from suspendedD [OF su] obtain ch where h: "heap s r = Some ch" and m: "w \<in> set (waiters ch)"
    by blast
  from suspended_pending [OF su] obtain tm where p: "map_of (timers s) (wid w) = Some tm"
    and tm: "t_ch tm = r" "t_sock tm = w_sock w" by blast
  show ?thesis
    using h h' m p tm
    by (auto simp: Some a Let_def reply_def suspended_def waiter_armed_def map_add_def)
qed

lemma suspended_exec:
  assumes su: "suspended s r w"
  shows "suspended (exec E now sock c s) r w"
proof (cases c)
  case (Join name secret)
  have "suspended (joinChannel E sock name secret s) r w = suspended s r w"
    by (rule suspended_fields) (auto simp: joinChannel_def reply_def Let_def split: sum.splits)
  with su show ?thesis by (simp add: Join)
next
  case (Send name m)
  have "suspended s' r w" if "send now name m s = Inr (n, s')" for n s'
  proof -
    from that obtain payload keys where "s' = snd (send_loop payload keys 0 s)"
      by (auto simp: send_def split: option.splits) (metis snd_conv)
    with su show ?thesis by (simp add: same_queues_suspended [OF send_loop_same])
  qed
  with su show ?thesis
    by (auto simp: Send same_queues_suspended [OF out_same] split: sum.splits)
next
  case (Read name wait timeout)
  show ?thesis unfolding Read by (rule suspended_read [OF su])
next
  case (Leave name)
  have "suspended (leaveChannel sock name s) r w = suspended s r w"
    by (rule suspended_fields) (auto simp: leaveChannel_def reply_def split: option.splits)
  with su show ?thesis by (simp add: Leave)
next
  case Stop
  have "suspended ((reply sock Ok s)\<lparr>stopping := True\<rparr>) r w = suspended s r w"
    by (rule suspended_fields) (simp_all add: reply_def)
  with su show ?thesis by (simp add: Stop)
qed (simp_all add: su same_queues_suspended [OF out_same])

lemma suspended_joinFlushed:
  assumes rf: "refs_ok s" and su: "suspended s r w"
  shows "suspended (joinFlushed d s) r w"
proof (cases "map_of (joins s) d")
  case None
  with su show ?thesis by (simp add: joinFlushed_def)
next
  case (Some j)
  let ?s1 = "s\<lparr> joins := AList.delete d (joins s),
                heap := (heap s)(next_id s \<mapsto> \<lparr>topicHex = j_topic j, discovery = d, ch_peers = [],
                                              messages = [], waiters = []\<rparr>),
                channels := AList.update (j_name j) (next_id s) (channels s),
                next_id := Suc (next_id s) \<rparr>"
  from suspendedD [OF su] refs_heap [OF rf] have "r \<noteq> next_id s" by fastforce
  with su have "suspended ?s1 r w" by (simp add: suspended_def waiter_armed_def)
  then have "suspended (reply (j_sock j) (OkChannel (j_name j)) (reannounce ?s1)) r w"
    by (simp only: same_queues_suspended [OF out_same] same_queues_suspended [OF reannounce_same])
  then show ?thesis by (simp add: joinFlushed_def Some Let_def)
qed

lemma suspended_leaveDestroyed:
  "suspended (leaveDestroyed l s) r w = suspended s r w"
  by (rule suspended_fields) (auto simp: leaveDestroyed_def reply_def split: option.splits)

lemma suspended_onPeer: "suspended (onPeer key s) r w = suspended s r w"
  by (rule suspended_fields) (auto simp: onPeer_def Let_def)

lemma suspended_step:
  assumes w: "wf_daemon s" and rf: "refs_ok s" and su: "suspended s r w"
  shows "e \<noteq> TimerFired (wid w) \<Longrightarrow> \<forall>c d. e \<noteq> PeerData c d \<Longrightarrow> suspended (step E e s) r w"
    and "e \<noteq> TimerFired (wid w) \<Longrightarrow> r \<notin> snd ` set (channels s) \<Longrightarrow> suspended (step E e s) r w"
    and "suspended (step E e s) r w \<or> resolved (step E e s) (wid w)"
proof -
  have quiet: "suspended (step E e s) r w"
    if "e \<noteq> TimerFired (wid w)" "\<forall>c d. e \<noteq> PeerData c d"
  proof (cases e)
    case (TimerFired t)
    with that timerFired_other [OF _ su, of t] show ?thesis by simp
  next
    case (PeerData c d)
    with that show ?thesis by simp
  qed (simp_all add: su suspended_exec suspended_joinFlushed [OF rf] suspended_leaveDestroyed
      suspended_onPeer same_queues_suspended [OF destroy_same]
      same_queues_suspended [OF onClose_same])
  show "suspended (step E e s) r w" if "e \<noteq> TimerFired (wid w)" "\<forall>c d. e \<noteq> PeerData c d"
    using that by (rule quiet)
  show "suspended (step E e s) r w" if "e \<noteq> TimerFired (wid w)" "r \<notin> snd ` set (channels s)"
  proof (cases "\<exists>c d. e = PeerData c d")
    case True
    then obtain c d where "e = PeerData c d" by blast
    with onData_orphan [OF w rf su that(2)] show ?thesis by simp
  next
    case False
    with that(1) quiet show ?thesis by blast
  qed
  show "suspended (step E e s) r w \<or> resolved (step E e s) (wid w)"
  proof (cases "e = TimerFired (wid w)")
    case True
    from suspended_pending [OF su] obtain tm where p: "map_of (timers s) (wid w) = Some tm" by blast
    from timerFired_suspended [OF w su] obtain ch where
      "timerFired (wid w) s
       = s\<lparr> timers := AList.delete (wid w) (timers s),
             heap := (heap s)(r \<mapsto> ch\<lparr>waiters := filter (\<lambda>x. x \<noteq> w) (waiters ch)\<rparr>),
             out := out s @ [(w_sock w, OkMessages [])] \<rparr>" by blast
    with pending_resolved [OF w p] True show ?thesis by simp
  next
    case False
    show ?thesis
    proof (cases "\<exists>c d. e = PeerData c d")
      case True
      then obtain c d where "e = PeerData c d" by blast
      with onData_cases [OF w su] show ?thesis by simp
    next
      case False
      with \<open>e \<noteq> TimerFired (wid w)\<close> quiet show ?thesis by blast
    qed
  qed
qed

section \<open>Sequences of events\<close>

lemma fresh_timer: "wf_daemon s \<Longrightarrow> map_of (timers s) (next_id s) = None"
proof -
  assume "wf_daemon s"
  from wf_fresh [OF this] have "next_id s \<notin> fst ` set (timers s)"
    unfolding ids_fresh_def by blast
  then show ?thesis by (simp add: map_of_eq_None_iff)
qed

lemma run_Cons: "run E (e # es) s = run E es (step E e s)"
  by (simp add: run_def)

lemma run_append: "run E (es @ es') s = run E es' (run E es s)"
  by (simp add: run_def)

lemma resolved_run: "resolved s t \<Longrightarrow> resolved (run E evs s) t"
  by (rule resolved_advances [OF advances_run])

lemma wf_run: "wf_daemon s \<Longrightarrow> wf_daemon (run E evs s)"
  by (induction evs arbitrary: s) (simp_all add: run_def wf_step)

lemma refs_run: "refs_ok s \<Longrightarrow> refs_ok (run E evs s)"
  by (rule advances_refs [OF advances_run])

lemma suspended_or_resolved:
  "wf_daemon s \<Longrightarrow> refs_ok s \<Longrightarrow> suspended s r w \<Longrightarrow>
   suspended (run E evs s) r w \<or> resolved (run E evs s) (wid w)"
proof (induction evs arbitrary: s)
  case Nil
  then show ?case by (simp add: run_def)
next
  case (Cons e evs)
  note w1 = wf_step [OF Cons.prems(1), of E e] and r1 = advances_refs [OF advances_step Cons.prems(2), of E e]
  from suspended_step(3) [OF Cons.prems, of E e] show ?case
  proof
    assume "suspended (step E e s) r w"
    from Cons.IH [OF w1 r1 this] show ?thesis by (simp add: run_Cons)
  next
    assume "resolved (step E e s) (wid w)"
    from resolved_run [OF this] show ?thesis by (simp add: run_Cons)
  qed
qed

text \<open>What resolves a suspended read, in any state the daemon passes through.\<close>

lemma timer_resolves:
  assumes w: "wf_daemon s" and su: "suspended s r w"
  shows "out (timerFired (wid w) s) = out s @ [(w_sock w, OkMessages [])]"
    and "resolved (timerFired (wid w) s) (wid w)"
    and "map_option waiters (heap (timerFired (wid w) s) r)
           = map_option (\<lambda>ch. filter (\<lambda>x. x \<noteq> w) (waiters ch)) (heap s r)"
    and "map_option messages (heap (timerFired (wid w) s) r) = map_option messages (heap s r)"
proof -
  from suspended_pending [OF su] obtain tm where p: "map_of (timers s) (wid w) = Some tm" by blast
  from timerFired_suspended [OF w su] obtain ch where h: "heap s r = Some ch"
    and e: "timerFired (wid w) s
       = s\<lparr> timers := AList.delete (wid w) (timers s),
             heap := (heap s)(r \<mapsto> ch\<lparr>waiters := filter (\<lambda>x. x \<noteq> w) (waiters ch)\<rparr>),
             out := out s @ [(w_sock w, OkMessages [])] \<rparr>" by blast
  show "out (timerFired (wid w) s) = out s @ [(w_sock w, OkMessages [])]" unfolding e by simp
  show "resolved (timerFired (wid w) s) (wid w)" unfolding e by (rule pending_resolved [OF w p])
  show "map_option waiters (heap (timerFired (wid w) s) r)
           = map_option (\<lambda>ch. filter (\<lambda>x. x \<noteq> w) (waiters ch)) (heap s r)"
    unfolding e by (simp add: h)
  show "map_option messages (heap (timerFired (wid w) s) r) = map_option messages (heap s r)"
    unfolding e by (simp add: h)
qed

lemma onPeerMsg_route:
  "get_peer s key \<noteq> None \<Longrightarrow> byteLength data \<le> MAX_MESSAGE_SIZE \<Longrightarrow>
   onPeerMsg key (FMsg topic data i ts) s = route key topic data i ts s"
  by auto

lemma message_resolves:
  assumes w: "wf_daemon s" and su: "suspended s r w"
    and p: "get_peer s key \<noteq> None" and l: "byteLength data \<le> MAX_MESSAGE_SIZE"
    and f: "find_topic s topic = Some (r', ch')"
  shows "if r' = r \<and> take 1 (waiters ch') = [w]
         then out (onPeerMsg key (FMsg topic data i ts) s)
                = out s @ [(w_sock w, OkMessages
                    [\<lparr>e_from = (if i \<noteq> [] then i else take 8 key), e_data = data, e_ts = ts\<rparr>])] \<and>
              resolved (onPeerMsg key (FMsg topic data i ts) s) (wid w) \<and>
              heap (onPeerMsg key (FMsg topic data i ts) s) r
                = Some (ch'\<lparr>waiters := tl (waiters ch')\<rparr>)
         else suspended (onPeerMsg key (FMsg topic data i ts) s) r w"
proof -
  let ?e = "\<lparr>e_from = (if i \<noteq> [] then i else take 8 key), e_data = data, e_ts = ts\<rparr>"
  from f have h': "heap s r' = Some ch'" by (rule find_topic_heap)
  have r: "onPeerMsg key (FMsg topic data i ts) s = deliver r' ch' ?e s"
    unfolding onPeerMsg_route [OF p l] by (simp add: route_def f)
  show ?thesis
  proof (cases "r' = r \<and> take 1 (waiters ch') = [w]")
    case False
    from deliver_other [OF w su h' False] False show ?thesis by (simp only: r if_False)
  next
    case True
    then obtain ws where c: "waiters ch' = w # ws" by (cases "waiters ch'") auto
    from True h' have h: "heap s r = Some ch'" by simp
    note d = deliver_head [OF w su h c, of ?e]
    from True have "r' = r" by simp
    with d c True show ?thesis unfolding r by (simp del: deliver_def)
  qed
qed

lemma late_message:
  assumes w: "wf_daemon s" and rs: "resolved s (wid w)"
    and p: "get_peer s key \<noteq> None" and l: "byteLength data \<le> MAX_MESSAGE_SIZE"
    and f: "find_topic s topic = Some (r', ch')"
  shows "case waiters ch' of
           [] \<Rightarrow> out (onPeerMsg key (FMsg topic data i ts) s) = out s \<and>
                 heap (onPeerMsg key (FMsg topic data i ts) s) r'
                   = Some (ch'\<lparr>messages := messages ch'
                        @ [\<lparr>e_from = (if i \<noteq> [] then i else take 8 key), e_data = data, e_ts = ts\<rparr>]\<rparr>)
         | x # xs \<Rightarrow> x \<noteq> w \<and>
                 out (onPeerMsg key (FMsg topic data i ts) s)
                   = out s @ [(w_sock x, OkMessages
                       [\<lparr>e_from = (if i \<noteq> [] then i else take 8 key), e_data = data, e_ts = ts\<rparr>])] \<and>
                 heap (onPeerMsg key (FMsg topic data i ts) s) r' = Some (ch'\<lparr>waiters := xs\<rparr>)"
proof -
  from f have h': "heap s r' = Some ch'" by (rule find_topic_heap)
  from resolved_unqueued [OF w rs h'] have "w \<notin> set (waiters ch')" by auto
  then show ?thesis
    unfolding onPeerMsg_route [OF p l]
    by (cases "waiters ch'") (auto simp: route_def f deliver_def reply_def)
qed

section \<open>Facts about the sample states and the registry lookups\<close>

lemma joined_simps:
  "channels joined = [(''room'', 1)]"
  "heap joined = (\<lambda>_. None)(1 \<mapsto> room)"
  "out joined = [(1, OkChannel ''room'')]"
  "next_id joined = 2" "timers joined = []" "leaves joined = []" "joins joined = []"
  "peers joined = []" "mesh joined = [MeshJoin 0 ''room/s1'']" "daemon_id joined = ''d0''"
  "wire joined = []" "pstore joined = (\<lambda>_. None)"
  by (simp_all add: joined_def run_def demo_env_def init_def joinChannel_def joinFlushed_def
      reply_def reannounce_def topics_def room_def)

lemma joined_channel: "get_channel joined ''room'' = Some (1, room)"
  by (simp add: get_channel_def joined_simps)

lemma reachable_run: "reachable E s \<Longrightarrow> reachable E (run E evs s)"
  by (induction evs arbitrary: s) (simp_all add: run_def reachable_step)

lemma joined_reachable: "reachable demo_env joined"
  unfolding joined_def by (rule reachable_run) (rule reachable_init)

lemma get_channel_upd:
  "get_channel (s\<lparr>out := x\<rparr>) name = get_channel s name"
  "get_channel (s\<lparr>wire := w\<rparr>) name = get_channel s name"
  "get_channel (s\<lparr>pstore := p\<rparr>) name = get_channel s name"
  "get_channel (s\<lparr>timers := t\<rparr>) name = get_channel s name"
  "get_channel (s\<lparr>next_id := n\<rparr>) name = get_channel s name"
  "get_channel (s\<lparr>mesh := m\<rparr>) name = get_channel s name"
  "get_channel (s\<lparr>leaves := l\<rparr>) name = get_channel s name"
  by (simp_all add: get_channel_def split: option.splits)

lemma get_peer_upd:
  "get_peer (s\<lparr>out := x\<rparr>) key = get_peer s key"
  "get_peer (s\<lparr>wire := w\<rparr>) key = get_peer s key"
  "get_peer (s\<lparr>heap := h\<rparr>) key = get_peer s key"
  "get_peer (s\<lparr>timers := t\<rparr>) key = get_peer s key"
  "get_peer (s\<lparr>next_id := n\<rparr>) key = get_peer s key"
  by (simp_all add: get_peer_def split: option.splits)

lemma find_topic_upd:
  "find_topic (s\<lparr>out := x\<rparr>) topic = find_topic s topic"
  "find_topic (s\<lparr>wire := w\<rparr>) topic = find_topic s topic"
  "find_topic (s\<lparr>pstore := p\<rparr>) topic = find_topic s topic"
  "find_topic (s\<lparr>timers := t\<rparr>) topic = find_topic s topic"
  "find_topic (s\<lparr>next_id := n\<rparr>) topic = find_topic s topic"
  by (simp_all add: find_topic_def)

lemma indexOf_nl_line: "0x0A \<notin> set l \<Longrightarrow> indexOf_nl (l @ 0x0A # rest) = Some (length l)"
  by (induction l) auto

lemma not_surrogate: "u < 0x80 \<Longrightarrow> \<not> high_surrogate u"
  by (simp add: high_surrogate_def word_le_nat_alt word_less_nat_alt)

lemma byteLength_ascii: "\<forall>u \<in> set us. u < 0x80 \<Longrightarrow> byteLength us = length us"
proof (induction us rule: byteLength.induct)
  case (3 u v us)
  then show ?case by (simp add: not_surrogate unit_bytes_def)
qed (simp_all add: unit_bytes_def)

lemma byteLength_bmp:
  "\<forall>u \<in> set us. 0x800 \<le> u \<and> \<not> high_surrogate u \<Longrightarrow> byteLength us = 3 * length us"
proof (induction us rule: byteLength.induct)
  case (3 u v us)
  then show ?case by (simp add: unit_bytes_def word_le_nat_alt word_less_nat_alt)
qed (simp_all add: unit_bytes_def word_le_nat_alt word_less_nat_alt)

lemma euros_size: "length euros = MAX_PEER_BUFFER div 2" "byteLength euros = 3 * (MAX_PEER_BUFFER div 2)"
  by (simp_all add: euros_def byteLength_bmp high_surrogate_def)

lemma js_simps: "js [] = []" "js (c # cs) = of_nat (of_char c) # js cs"
  by (simp_all add: js_def)

lemma matched_simps:
  "channels matched = [(''room'', 1)]"
  "heap matched = (\<lambda>_. None)(1 \<mapsto> room\<lparr>ch_peers := [''kB'']\<rparr>)"
  "peers matched = [(''kB'', 2)]"
  "pstore matched = (\<lambda>_. None)(2 \<mapsto> peerB)"
  "out matched = [(1, OkChannel ''room'')]"
  "wire matched = [(2, FHello [''room/s1''] ''d0'')]"
  "next_id matched = 3" "timers matched = []" "leaves matched = []" "joins matched = []"
  "daemon_id matched = ''d0''" "mesh matched = [MeshJoin 0 ''room/s1'']"
  by (simp_all add: matched_def run_def joined_simps onPeer_def onData_def set_buf_def
      lines_loop.simps [of _ _ _ "_ # _"] lines_loop.simps [of _ _ _ "[]"]
      MAX_PEER_BUFFER_def demo_env_def blank_def is_space_def get_peer_def
      topics_def room_def peerB_def set_add_def Let_def js_simps)


lemma matched_channel: "get_channel matched ''room'' = Some (1, room\<lparr>ch_peers := [''kB'']\<rparr>)"
  by (simp add: get_channel_def matched_simps)

lemma matched_peer: "get_peer matched ''kB'' = Some (2, peerB)"
  by (simp add: get_peer_def matched_simps)

lemma matched_reachable: "reachable demo_env matched"
  unfolding matched_def by (rule reachable_run) (rule joined_reachable)

lemma waiting_simps:
  "channels waiting = [(''room'', 1)]"
  "heap waiting = (\<lambda>_. None)(1 \<mapsto> room\<lparr>ch_peers := [''kB''], waiters := [\<lparr>wid = 3, w_sock = 7\<rparr>]\<rparr>)"
  "peers waiting = [(''kB'', 2)]"
  "pstore waiting = (\<lambda>_. None)(2 \<mapsto> peerB)"
  "out waiting = [(1, OkChannel ''room'')]"
  "timers waiting = [(3, \<lparr>t_ch = 1, t_sock = 7, t_delay = 30000\<rparr>)]"
  "next_id waiting = 4" "leaves waiting = []" "joins waiting = []"
  by (simp_all add: waiting_def matched_channel matched_simps room_def read_timeout_def)

lemma waiting_reachable: "reachable demo_env waiting"
  using reachable_step [OF matched_reachable, of "Exec 0 7 (Read ''room'' True None)"]
  by (simp add: waiting_def)

lemma waiting_channel:
  "get_channel waiting ''room''
     = Some (1, room\<lparr>ch_peers := [''kB''], waiters := [\<lparr>wid = 3, w_sock = 7\<rparr>]\<rparr>)"
  by (simp add: get_channel_def waiting_simps)


lemma matched_topic: "find_topic matched ''room/s1'' = Some (1, room\<lparr>ch_peers := [''kB'']\<rparr>)"
  by (simp add: find_topic_def matched_simps room_def)

lemma buffered_channel:
  "get_channel buffered ''room'' = Some (1, room\<lparr>ch_peers := [''kB''], messages := [hi]\<rparr>)"
  by (simp add: buffered_def matched_peer matched_topic route_def deliver_def get_channel_def
      matched_simps MAX_MESSAGE_SIZE_def room_def hi_def js_simps unit_bytes_def
      high_surrogate_def)

lemma buffered_simps:
  "channels buffered = [(''room'', 1)]"
  "out buffered = [(1, OkChannel ''room'')]"
  by (simp_all add: buffered_def matched_peer matched_topic route_def deliver_def
      matched_simps MAX_MESSAGE_SIZE_def room_def js_simps unit_bytes_def high_surrogate_def)

lemma indexOf_nl_none: "0x0A \<notin> set l \<Longrightarrow> indexOf_nl l = None"
  by (induction l) auto

lemma lines_loop_done: "0x0A \<notin> set b \<Longrightarrow> lines_loop E c key b s = s"
  by (subst lines_loop.simps) (simp add: indexOf_nl_none)

lemma lines_loop_line:
  "0x0A \<notin> set l \<Longrightarrow>
   lines_loop E c key (l @ 0x0A # rest) s =
     lines_loop E c key rest
       (if \<not> blank l
        then (case parse E l of
                None \<Rightarrow> set_buf c rest s
              | Some m \<Rightarrow> onPeerMsg key m (set_buf c rest s))
        else set_buf c rest s)"
  by (subst lines_loop.simps) (simp add: indexOf_nl_line Let_def)

lemma set_buf_twice: "set_buf c b (set_buf c b' s) = set_buf c b s"
  by (simp add: set_buf_def split: option.splits)

lemma onData_live:
  "pstore s c = Some p \<Longrightarrow> \<not> conn_destroyed p \<Longrightarrow> length (buf p @ data) \<le> MAX_PEER_BUFFER \<Longrightarrow>
   onData E c data s = lines_loop E c (remoteKey p) (buf p @ data) (set_buf c (buf p @ data) s)"
  by (simp add: onData_def Let_def)


lemma timed_out_simps:
  "channels timed_out = [(''room'', 1)]"
  "heap timed_out = (\<lambda>_. None)(1 \<mapsto> room\<lparr>ch_peers := [''kB'']\<rparr>)"
  "peers timed_out = [(''kB'', 2)]"
  "pstore timed_out = (\<lambda>_. None)(2 \<mapsto> peerB)"
  "out timed_out = [(1, OkChannel ''room''), (7, OkMessages [])]"
  "timers timed_out = []" "next_id timed_out = 4"
  by (simp_all add: timed_out_def timerFired_def waiting_simps reply_def room_def)

lemma timed_out_reachable: "reachable demo_env timed_out"
  using reachable_step [OF waiting_reachable, of "TimerFired 3"] by (simp add: timed_out_def)

lemma waiting_topic:
  "find_topic waiting ''room/s1''
     = Some (1, room\<lparr>ch_peers := [''kB''], waiters := [\<lparr>wid = 3, w_sock = 7\<rparr>]\<rparr>)"
  by (simp add: find_topic_def waiting_simps room_def)

lemma timed_out_topic: "find_topic timed_out ''room/s1'' = Some (1, room\<lparr>ch_peers := [''kB'']\<rparr>)"
  by (simp add: find_topic_def timed_out_simps room_def)

lemma hi_size: "byteLength (js ''hi'') \<le> MAX_MESSAGE_SIZE"
  by (simp add: MAX_MESSAGE_SIZE_def js_simps unit_bytes_def high_surrogate_def)







section \<open>Buffer and waiters of a channel\<close>

text \<open>
  Claim C2. In every reachable state, a channel of the registry never has both a non-empty
  buffer and a non-empty waiter queue. An inbound entry for the channel goes to the oldest
  waiter alone (the buffer is untouched) when there is one, and to the buffer alone (no
  reply is written) when there is none; a read registers a waiter only on an empty buffer.
\<close>

theorem buffer_waiters_exclusive:
  assumes "reachable E s" and "get_channel s name = Some (r, ch)"
  shows "(messages ch = [] \<or> waiters ch = []) \<and>
    (get_peer s key \<noteq> None \<and> byteLength data \<le> MAX_MESSAGE_SIZE \<and> find_topic s topic = Some (r, ch) \<longrightarrow>
       (let s' = onPeerMsg key (FMsg topic data i ts) s;
            e = \<lparr>e_from = (if i \<noteq> [] then i else take 8 key), e_data = data, e_ts = ts\<rparr>
        in case waiters ch of
             w # ws \<Rightarrow> out s' = out s @ [(w_sock w, OkMessages [e])] \<and>
                       heap s' r = Some (ch\<lparr>waiters := ws\<rparr>)
           | [] \<Rightarrow> out s' = out s \<and>
                   heap s' r = Some (ch\<lparr>messages := messages ch @ [e]\<rparr>))) \<and>
    (map_option waiters (heap (exec E now sock (Read name wait timeout) s) r) \<noteq> Some (waiters ch)
       \<longrightarrow> messages ch = [])"
proof (intro conjI)
  from assms(2) have h: "heap s r = Some ch" by (rule get_channel_heap)
  from wf_channel [OF reachable_wf [OF assms(1)] h]
  show "messages ch = [] \<or> waiters ch = []" by (simp add: channel_ok_def)
  show "get_peer s key \<noteq> None \<and> byteLength data \<le> MAX_MESSAGE_SIZE \<and> find_topic s topic = Some (r, ch) \<longrightarrow>
       (let s' = onPeerMsg key (FMsg topic data i ts) s;
            e = \<lparr>e_from = (if i \<noteq> [] then i else take 8 key), e_data = data, e_ts = ts\<rparr>
        in case waiters ch of
             w # ws \<Rightarrow> out s' = out s @ [(w_sock w, OkMessages [e])] \<and>
                       heap s' r = Some (ch\<lparr>waiters := ws\<rparr>)
           | [] \<Rightarrow> out s' = out s \<and>
                   heap s' r = Some (ch\<lparr>messages := messages ch @ [e]\<rparr>))"
    by (auto simp: route_def deliver_def reply_def Let_def split: list.splits)
  show "map_option waiters (heap (exec E now sock (Read name wait timeout) s) r) \<noteq> Some (waiters ch)
       \<longrightarrow> messages ch = []"
    using assms(2) h by (auto simp: reply_def Let_def split: if_splits)
qed

theorem buffer_waiters_exclusive_witness:
  "reachable demo_env waiting \<and>
   get_channel waiting ''room''
     = Some (1, room\<lparr>ch_peers := [''kB''], waiters := [\<lparr>wid = 3, w_sock = 7\<rparr>]\<rparr>) \<and>
   messages (room\<lparr>ch_peers := [''kB''], waiters := [\<lparr>wid = 3, w_sock = 7\<rparr>]\<rparr>) = [] \<and>
   out (onPeerMsg ''kB'' (FMsg ''room/s1'' (js ''hi'') ''peerB'' 7) waiting)
     = out waiting @ [(7, OkMessages [\<lparr>e_from = ''peerB'', e_data = js ''hi'', e_ts = 7\<rparr>])] \<and>
   heap (onPeerMsg ''kB'' (FMsg ''room/s1'' (js ''hi'') ''peerB'' 7) waiting) 1
     = Some (room\<lparr>ch_peers := [''kB'']\<rparr>)"
proof -
  let ?ch = "room\<lparr>ch_peers := [''kB''], waiters := [\<lparr>wid = 3, w_sock = 7\<rparr>]\<rparr>"
  have p: "get_peer waiting ''kB'' \<noteq> None" by (simp add: get_peer_def waiting_simps)
  have l: "byteLength (js ''hi'') \<le> MAX_MESSAGE_SIZE"
    by (simp add: MAX_MESSAGE_SIZE_def js_simps unit_bytes_def high_surrogate_def)
  have f: "find_topic waiting ''room/s1'' = Some (1, ?ch)"
    by (simp add: find_topic_def waiting_simps room_def)
  have w: "waiters ?ch = [\<lparr>wid = 3, w_sock = 7\<rparr>]" by simp
  from buffer_waiters_exclusive [OF waiting_reachable waiting_channel,
      where key = "''kB''" and data = "js ''hi''" and topic = "''room/s1''" and i = "''peerB''"
        and ts = 7 and now = 0 and sock = 0 and wait = True and timeout = None] p l f
  have "messages ?ch = [] \<or> waiters ?ch = []"
    "out (onPeerMsg ''kB'' (FMsg ''room/s1'' (js ''hi'') ''peerB'' 7) waiting)
     = out waiting @ [(7, OkMessages [\<lparr>e_from = ''peerB'', e_data = js ''hi'', e_ts = 7\<rparr>])]"
    "heap (onPeerMsg ''kB'' (FMsg ''room/s1'' (js ''hi'') ''peerB'' 7) waiting) 1
     = Some (room\<lparr>ch_peers := [''kB'']\<rparr>)"
    by (simp_all add: Let_def room_def)
  with waiting_reachable waiting_channel show ?thesis by (simp add: room_def)
qed

section \<open>Joining twice\<close>

text \<open>
  Claim C4. A join on a name that is already in the registry is a no-op: the whole daemon
  state is what it was (registry, channel objects with their topic, matched peers, buffer
  and waiters, the calls made on the mesh, the pending joins), except for the success
  reply written to the requesting socket. \<open>E\<close> is arbitrary, so no topic is derived.
\<close>

theorem join_again_noop:
  assumes "name \<in> fst ` set (channels s)"
  shows "exec E now sock (Join name secret) s = s\<lparr>out := out s @ [(sock, OkChannel name)]\<rparr> \<and>
         mesh (exec E now sock (Join name secret) s) = mesh s \<and>
         joins (exec E now sock (Join name secret) s) = joins s \<and>
         length (channels (exec E now sock (Join name secret) s)) = length (channels s) \<and>
         heap (exec E now sock (Join name secret) s) = heap s \<and>
         get_channel (exec E now sock (Join name secret) s) name = get_channel s name"
  using assms by (simp add: joinChannel_def reply_def get_channel_upd)

theorem join_again_noop_witness:
  "''room'' \<in> fst ` set (channels matched) \<and>
   exec demo_env 5 2 (Join ''room'' ''s1'') matched
     = matched\<lparr>out := out matched @ [(2, OkChannel ''room'')]\<rparr> \<and>
   mesh (exec demo_env 5 2 (Join ''room'' ''s1'') matched) = [MeshJoin 0 ''room/s1''] \<and>
   get_channel (exec demo_env 5 2 (Join ''room'' ''s1'') matched) ''room''
     = Some (1, room\<lparr>ch_peers := [''kB'']\<rparr>)"
proof -
  have a: "''room'' \<in> fst ` set (channels matched)" by (simp add: matched_simps)
  have m: "mesh matched = [MeshJoin 0 ''room/s1'']" by (simp add: matched_simps)
  from join_again_noop [OF a, of demo_env 5 2 "''s1''"] m matched_channel a
  show ?thesis by (simp add: get_channel_upd)
qed

text \<open>
  Claim C10. On a name that is already joined, a join carrying any secret replies
  \<^verbatim>\<open>{ ok: true, channel }\<close> and leaves the channel object, so its topic, as it was; the
  outcome is the same for every secret, also for one whose derived topic is not the
  channel's.
\<close>

theorem join_ignores_secret:
  assumes "get_channel s name = Some (r, ch)"
  shows "out (exec E now sock (Join name secret) s) = out s @ [(sock, OkChannel name)] \<and>
         get_channel (exec E now sock (Join name secret) s) name = Some (r, ch) \<and>
         (\<forall>secret'. exec E now sock (Join name secret') s = exec E now sock (Join name secret) s)"
proof -
  from assms have "map_of (channels s) name \<noteq> None"
    by (auto simp: get_channel_def split: option.splits)
  then have "name \<in> fst ` set (channels s)" by (simp add: map_of_eq_None_iff)
  then have "exec E now sock (Join name x) s = s\<lparr>out := out s @ [(sock, OkChannel name)]\<rparr>" for x
    by (simp add: joinChannel_def reply_def)
  with assms show ?thesis by (simp add: get_channel_upd)
qed

theorem join_ignores_secret_witness:
  "get_channel joined ''room'' = Some (1, room) \<and>
   deriveTopic demo_env ''room'' ''s2'' \<noteq> Inr (topicHex room) \<and>
   out (exec demo_env 5 2 (Join ''room'' ''s2'') joined) = out joined @ [(2, OkChannel ''room'')] \<and>
   get_channel (exec demo_env 5 2 (Join ''room'' ''s2'') joined) ''room'' = Some (1, room)"
  using join_ignores_secret [OF joined_channel, of demo_env 5 2 "''s2''"]
  by (simp add: joined_channel demo_env_def room_def)

section \<open>Reading\<close>

text \<open>
  Claim C6. A read on a name that is not in the registry fails with \<open>NotInChannel\<close>. On an
  existing channel whose buffer is non-empty, or when waiting was not requested, the reply
  carries the whole buffer in order (possibly the empty list) and the buffer is empty
  afterwards.
\<close>

theorem read_immediate:
  "(map_of (channels s) name = None \<longrightarrow>
      exec E now sock (Read name wait timeout) s = reply sock (Err (NotInChannel name)) s) \<and>
   (get_channel s name = Some (r, ch) \<and> (messages ch \<noteq> [] \<or> \<not> wait) \<longrightarrow>
      exec E now sock (Read name wait timeout) s
        = reply sock (OkMessages (messages ch)) (s\<lparr>heap := (heap s)(r \<mapsto> ch\<lparr>messages := []\<rparr>)\<rparr>) \<and>
      get_channel (exec E now sock (Read name wait timeout) s) name = Some (r, ch\<lparr>messages := []\<rparr>))"
  by (auto simp: get_channel_def reply_def split: option.splits)

theorem read_immediate_witness:
  "map_of (channels buffered) ''lobby'' = None \<and>
   exec demo_env 0 7 (Read ''lobby'' False None) buffered
     = reply 7 (Err (NotInChannel ''lobby'')) buffered \<and>
   get_channel buffered ''room'' = Some (1, room\<lparr>ch_peers := [''kB''], messages := [hi]\<rparr>) \<and>
   out (exec demo_env 0 7 (Read ''room'' True None) buffered) = out buffered @ [(7, OkMessages [hi])] \<and>
   get_channel (exec demo_env 0 7 (Read ''room'' True None) buffered) ''room''
     = Some (1, room\<lparr>ch_peers := [''kB'']\<rparr>)"
proof -
  let ?ch = "room\<lparr>ch_peers := [''kB''], messages := [hi]\<rparr>"
  have a: "map_of (channels buffered) ''lobby'' = None"
    by (simp add: buffered_simps)
  have m: "messages ?ch \<noteq> [] \<or> \<not> True" by simp
  from read_immediate [of buffered "''lobby''" demo_env 0 7 False None] a
  have 1: "exec demo_env 0 7 (Read ''lobby'' False None) buffered
     = reply 7 (Err (NotInChannel ''lobby'')) buffered" by blast
  from read_immediate [of buffered "''room''" demo_env 0 7 True None 1 ?ch] buffered_channel m
  have 2: "exec demo_env 0 7 (Read ''room'' True None) buffered
        = reply 7 (OkMessages (messages ?ch)) (buffered\<lparr>heap := (heap buffered)(1 \<mapsto> ?ch\<lparr>messages := []\<rparr>)\<rparr>)"
    "get_channel (exec demo_env 0 7 (Read ''room'' True None) buffered) ''room'' = Some (1, ?ch\<lparr>messages := []\<rparr>)"
    by blast+
  from 2(1) have 3: "out (exec demo_env 0 7 (Read ''room'' True None) buffered)
      = out buffered @ [(7, OkMessages [hi])]" by (simp add: reply_def)
  from 2(2) have 4: "get_channel (exec demo_env 0 7 (Read ''room'' True None) buffered) ''room''
     = Some (1, room\<lparr>ch_peers := [''kB'']\<rparr>)" by (simp add: room_def)
  from a 1 buffered_channel 3 4 show ?thesis by blast
qed

section \<open>Sending\<close>

lemma writable_peers_wire: "writable_peers (s\<lparr>wire := w\<rparr>) keys = writable_peers s keys"
  by (simp add: writable_peers_def get_peer_upd)

lemma send_loop_eq:
  "send_loop payload keys n s =
     (n + length (writable_peers s keys),
      s\<lparr>wire := wire s @ map (\<lambda>c. (c, payload)) (writable_peers s keys)\<rparr>)"
proof (induction keys arbitrary: n s)
  case Nil
  show ?case by (simp add: writable_peers_def)
next
  case (Cons key keys)
  have w: "writable_peers s (key # keys) =
      (case get_peer s key of None \<Rightarrow> [] | Some (c, p) \<Rightarrow> if conn_writable p then [c] else [])
      @ writable_peers s keys"
    by (simp add: writable_peers_def)
  show ?case
  proof (cases "get_peer s key")
    case None
    then show ?thesis by (simp add: Cons.IH w)
  next
    case (Some a)
    obtain c p where a: "a = (c, p)" by (cases a)
    show ?thesis
      by (simp add: Cons.IH w Some a writable_peers_wire)
  qed
qed

text \<open>
  Claim C5. \<^verbatim>\<open>_send\<close> on a name that is not in the registry fails with \<open>NotInChannel\<close>,
  whatever the peers are. On a joined channel it writes the record to exactly the matched
  peers that are registered and writable and returns their number; with no matched peer
  the reply is \<^verbatim>\<open>{ ok: true, delivered: 0 }\<close>.
\<close>

theorem send_delivered_count:
  "(map_of (channels s) name = None \<longrightarrow>
      send now name m s = Inl (NotInChannel name) \<and>
      (byteLength m \<le> MAX_MESSAGE_SIZE \<longrightarrow>
         exec E now sock (Send name m) s = reply sock (Err (NotInChannel name)) s)) \<and>
   (get_channel s name = Some (r, ch) \<longrightarrow>
      send now name m s =
        Inr (length (writable_peers s (ch_peers ch)),
             s\<lparr>wire := wire s @ map (\<lambda>c. (c, FMsg (topicHex ch) m (daemon_id s) now))
                                      (writable_peers s (ch_peers ch))\<rparr>) \<and>
      (byteLength m \<le> MAX_MESSAGE_SIZE \<longrightarrow>
         out (exec E now sock (Send name m) s)
           = out s @ [(sock, OkDelivered (length (writable_peers s (ch_peers ch))))]) \<and>
      (byteLength m \<le> MAX_MESSAGE_SIZE \<and> ch_peers ch = [] \<longrightarrow>
         exec E now sock (Send name m) s = reply sock (OkDelivered 0) s))"
  by (auto simp: send_def get_channel_def send_loop_eq reply_def writable_peers_def
      split: option.splits)

theorem send_delivered_count_witness:
  "map_of (channels matched) ''lobby'' = None \<and>
   send 5 ''lobby'' (js ''hi'') matched = Inl (NotInChannel ''lobby'') \<and>
   exec demo_env 5 2 (Send ''lobby'' (js ''hi'')) matched = reply 2 (Err (NotInChannel ''lobby'')) matched \<and>
   get_channel matched ''room'' = Some (1, room\<lparr>ch_peers := [''kB'']\<rparr>) \<and>
   send 5 ''room'' (js ''hi'') matched
     = Inr (1, matched\<lparr>wire := wire matched @ [(2, FMsg ''room/s1'' (js ''hi'') ''d0'' 5)]\<rparr>) \<and>
   get_channel joined ''room'' = Some (1, room) \<and> ch_peers room = [] \<and>
   exec demo_env 5 2 (Send ''room'' (js ''hi'')) joined = reply 2 (OkDelivered 0) joined"
proof -
  let ?ch = "room\<lparr>ch_peers := [''kB'']\<rparr>"
  have a: "map_of (channels matched) ''lobby'' = None" by (simp add: matched_simps)
  have b: "get_channel joined ''room'' = Some (1, room)" by (rule joined_channel)
  have c: "ch_peers room = []" by (simp add: room_def)
  have m: "byteLength (js ''hi'') \<le> MAX_MESSAGE_SIZE"
    by (simp add: MAX_MESSAGE_SIZE_def js_simps unit_bytes_def high_surrogate_def)
  have w: "writable_peers matched (ch_peers ?ch) = [2]"
    by (simp add: writable_peers_def matched_peer peerB_def)
  from send_delivered_count [of matched "''lobby''" 5 "js ''hi''" demo_env 2 1 room] a m
  have 1: "send 5 ''lobby'' (js ''hi'') matched = Inl (NotInChannel ''lobby'')"
    "exec demo_env 5 2 (Send ''lobby'' (js ''hi'')) matched = reply 2 (Err (NotInChannel ''lobby'')) matched"
    by blast+
  from send_delivered_count [of joined "''room''" 5 "js ''hi''" demo_env 2 1 room] b c m
  have 2: "exec demo_env 5 2 (Send ''room'' (js ''hi'')) joined = reply 2 (OkDelivered 0) joined"
    by blast
  from send_delivered_count [of matched "''room''" 5 "js ''hi''" demo_env 2 1 ?ch] matched_channel
  have "send 5 ''room'' (js ''hi'') matched =
        Inr (length (writable_peers matched (ch_peers ?ch)),
             matched\<lparr>wire := wire matched @ map (\<lambda>c. (c, FMsg (topicHex ?ch) (js ''hi'') (daemon_id matched) 5))
                                      (writable_peers matched (ch_peers ?ch))\<rparr>)" by blast
  then have 3: "send 5 ''room'' (js ''hi'') matched
     = Inr (1, matched\<lparr>wire := wire matched @ [(2, FMsg ''room/s1'' (js ''hi'') ''d0'' 5)]\<rparr>)"
    unfolding w by (simp add: room_def matched_simps)
  from a b c 1 2 3 matched_channel show ?thesis by blast
qed

text \<open>
  Claim C7. A payload of exactly \<open>MAX_MESSAGE_SIZE\<close> bytes passes the size check of the
  local send (the request goes on to \<^verbatim>\<open>_send\<close>) and of the peer path (the record is
  routed). One byte more, and the local send replies with the size error, changing
  nothing but the reply log, while the peer path leaves the whole state as it was.
\<close>

theorem size_limit_boundary:
  "(byteLength m = MAX_MESSAGE_SIZE \<longrightarrow>
      exec E now sock (Send name m) s =
        (case send now name m s of
           Inl e \<Rightarrow> reply sock (Err e) s
         | Inr (count, s') \<Rightarrow> reply sock (OkDelivered count) s') \<and>
      (get_peer s key \<noteq> None \<longrightarrow>
         onPeerMsg key (FMsg topic m i ts) s = route key topic m i ts s)) \<and>
   (byteLength m = Suc MAX_MESSAGE_SIZE \<longrightarrow>
      exec E now sock (Send name m) s = s\<lparr>out := out s @ [(sock, Err MessageTooLarge)]\<rparr> \<and>
      onPeerMsg key (FMsg topic m i ts) s = s)"
  by (auto simp: reply_def split: option.splits)

theorem size_limit_boundary_witness:
  "byteLength at_limit = MAX_MESSAGE_SIZE \<and>
   exec demo_env 5 2 (Send ''room'' at_limit) joined = reply 2 (OkDelivered 0) joined \<and>
   get_peer matched ''kB'' \<noteq> None \<and>
   heap (onPeerMsg ''kB'' (FMsg ''room/s1'' at_limit ''peerB'' 7) matched) 1
     = Some (room\<lparr>ch_peers := [''kB''],
                     messages := [\<lparr>e_from = ''peerB'', e_data = at_limit, e_ts = 7\<rparr>]\<rparr>) \<and>
   byteLength oversized = Suc MAX_MESSAGE_SIZE \<and>
   exec demo_env 5 2 (Send ''room'' oversized) joined
     = joined\<lparr>out := out joined @ [(2, Err MessageTooLarge)]\<rparr> \<and>
   onPeerMsg ''kB'' (FMsg ''room/s1'' oversized ''peerB'' 7) matched = matched"
proof -
  have a: "byteLength at_limit = MAX_MESSAGE_SIZE" by (simp add: at_limit_def byteLength_ascii)
  have b: "byteLength oversized = Suc MAX_MESSAGE_SIZE" by (simp add: oversized_def byteLength_ascii)
  have p: "get_peer matched ''kB'' \<noteq> None" by (simp add: matched_peer)
  have "send 5 ''room'' at_limit joined = Inr (0, joined)"
    by (simp add: send_def joined_channel room_def)
  with size_limit_boundary [of at_limit demo_env 5 2 "''room''" joined] a
  have 1: "exec demo_env 5 2 (Send ''room'' at_limit) joined = reply 2 (OkDelivered 0) joined"
    by simp
  from size_limit_boundary [of at_limit demo_env 5 2 "''room''" matched "''kB''" "''room/s1''" "''peerB''" 7] a p
  have "onPeerMsg ''kB'' (FMsg ''room/s1'' at_limit ''peerB'' 7) matched
        = route ''kB'' ''room/s1'' at_limit ''peerB'' 7 matched" by blast
  then have 2: "heap (onPeerMsg ''kB'' (FMsg ''room/s1'' at_limit ''peerB'' 7) matched) 1
     = Some (room\<lparr>ch_peers := [''kB''],
                     messages := [\<lparr>e_from = ''peerB'', e_data = at_limit, e_ts = 7\<rparr>]\<rparr>)"
    by (simp add: route_def matched_topic deliver_def room_def)
  from size_limit_boundary [of oversized demo_env 5 2 "''room''" joined "''kB''" "''room/s1''" "''peerB''" 7] b
  have 3: "exec demo_env 5 2 (Send ''room'' oversized) joined
     = joined\<lparr>out := out joined @ [(2, Err MessageTooLarge)]\<rparr>"
    by blast
  from size_limit_boundary [of oversized demo_env 5 2 "''room''" matched "''kB''" "''room/s1''" "''peerB''" 7] b
  have 4: "onPeerMsg ''kB'' (FMsg ''room/s1'' oversized ''peerB'' 7) matched = matched"
    by blast
  from a b p 1 2 3 4 show ?thesis by blast
qed

text \<open>
  Claim C8. An oversized send on a channel that is not joined is answered with the size
  error: the membership error that \<^verbatim>\<open>_send\<close> would raise is never reached.
\<close>

theorem oversized_send_not_joined:
  assumes "byteLength message > MAX_MESSAGE_SIZE" and "map_of (channels s) name = None"
  shows "exec E now sock (Send name message) s = reply sock (Err MessageTooLarge) s \<and>
         send now name message s = Inl (NotInChannel name)"
  using assms by (auto simp: send_def get_channel_def)

theorem oversized_send_not_joined_witness:
  "byteLength oversized > MAX_MESSAGE_SIZE \<and>
   map_of (channels joined) ''lobby'' = None \<and>
   exec demo_env 5 2 (Send ''lobby'' oversized) joined = reply 2 (Err MessageTooLarge) joined \<and>
   send 5 ''lobby'' oversized joined = Inl (NotInChannel ''lobby'')"
proof -
  have 1: "byteLength oversized > MAX_MESSAGE_SIZE" by (simp add: oversized_def byteLength_ascii)
  have 2: "map_of (channels joined) ''lobby'' = None" by (simp add: joined_simps)
  from oversized_send_not_joined [OF 1 2, of demo_env 5 2] 1 2 show ?thesis by blast
qed

section \<open>How a suspended read is resolved\<close>

lemma read_timeout_cases:
  "read_timeout None = 30000" "read_timeout (Some 0) = 30000"
  "n \<noteq> 0 \<Longrightarrow> read_timeout (Some n) = n * 1000"
  by (simp_all add: read_timeout_def)

lemma read_suspends:
  assumes c: "get_channel s name = Some (r, ch)" and m: "messages ch = []"
  shows "exec E now sock (Read name True timeout) s
       = s\<lparr> timers := timers s @ [(next_id s, \<lparr>t_ch = r, t_sock = sock, t_delay = read_timeout timeout\<rparr>)],
             heap := (heap s)(r \<mapsto> ch\<lparr>waiters := waiters ch @ [\<lparr>wid = next_id s, w_sock = sock\<rparr>]\<rparr>),
             next_id := Suc (next_id s) \<rparr>"
  using c m by (simp add: Let_def)

lemma read_registers:
  assumes w: "wf_daemon s" and c: "get_channel s name = Some (r, ch)" and m: "messages ch = []"
  shows "out (exec E now sock (Read name True timeout) s) = out s"
    and "heap (exec E now sock (Read name True timeout) s) r
           = Some (ch\<lparr>waiters := waiters ch @ [\<lparr>wid = next_id s, w_sock = sock\<rparr>]\<rparr>)"
    and "map_of (timers (exec E now sock (Read name True timeout) s)) (next_id s)
           = Some \<lparr>t_ch = r, t_sock = sock, t_delay = read_timeout timeout\<rparr>"
    and "suspended (exec E now sock (Read name True timeout) s) r \<lparr>wid = next_id s, w_sock = sock\<rparr>"
proof -
  note e = read_suspends [OF c m, of E now sock timeout]
  show 1: "out (exec E now sock (Read name True timeout) s) = out s" unfolding e by simp
  show 2: "heap (exec E now sock (Read name True timeout) s) r
           = Some (ch\<lparr>waiters := waiters ch @ [\<lparr>wid = next_id s, w_sock = sock\<rparr>]\<rparr>)"
    unfolding e by simp
  show 3: "map_of (timers (exec E now sock (Read name True timeout) s)) (next_id s)
           = Some \<lparr>t_ch = r, t_sock = sock, t_delay = read_timeout timeout\<rparr>"
    unfolding e by (simp add: map_add_def fresh_timer [OF w])
  show "suspended (exec E now sock (Read name True timeout) s) r \<lparr>wid = next_id s, w_sock = sock\<rparr>"
    by (rule suspendedI [OF wf_exec [OF w] 2]) simp
qed

text \<open>A suspended read through a sequence of events.\<close>

lemma suspended_quiet_data:
  assumes w: "wf_daemon s" and su: "suspended s r w"
    and q: "map_option queues (heap (onData E c d s) r) = map_option queues (heap s r)"
  shows "suspended (onData E c d s) r w"
proof -
  from suspendedD [OF su] obtain ch where h: "heap s r = Some ch" and m: "w \<in> set (waiters ch)"
    by blast
  from q h obtain ch' where h': "heap (onData E c d s) r = Some ch'" and "queues ch' = queues ch"
    by (cases "heap (onData E c d s) r") auto
  then have "w \<in> set (waiters ch')" using m by (simp add: queues_def)
  from suspendedI [OF wf_onData [OF w] h' this] show ?thesis .
qed

lemma suspended_quiet_step:
  assumes w: "wf_daemon s" and rf: "refs_ok s" and su: "suspended s r w"
    and ne: "e \<noteq> TimerFired (wid w)" and q: "no_arrival E r [e] s"
  shows "suspended (step E e s) r w"
proof (cases "\<exists>c d. e = PeerData c d")
  case True
  then obtain c d where e: "e = PeerData c d" by blast
  with q have "map_option queues (heap (onData E c d s) r) = map_option queues (heap s r)" by simp
  from suspended_quiet_data [OF w su this] show ?thesis by (simp add: e)
next
  case False
  then have "\<forall>c d. e \<noteq> PeerData c d" by blast
  from suspended_step(1) [OF w rf su ne this] show ?thesis .
qed

lemma no_arrival_Cons:
  "no_arrival E r (e # es) s \<longleftrightarrow> no_arrival E r [e] s \<and> no_arrival E r es (step E e s)"
  by simp

lemma suspended_quiet:
  "wf_daemon s \<Longrightarrow> refs_ok s \<Longrightarrow> suspended s r w \<Longrightarrow> TimerFired (wid w) \<notin> set evs \<Longrightarrow>
   no_arrival E r evs s \<Longrightarrow> suspended (run E evs s) r w"
proof (induction evs arbitrary: s)
  case Nil
  then show ?case by (simp add: run_def)
next
  case (Cons e evs)
  note w1 = wf_step [OF Cons.prems(1), of E e] and r1 = advances_refs [OF advances_step Cons.prems(2), of E e]
  from Cons.prems(4) have ne: "e \<noteq> TimerFired (wid w)" and nt: "TimerFired (wid w) \<notin> set evs"
    by auto
  from Cons.prems(5) have q: "no_arrival E r [e] s" and qs: "no_arrival E r evs (step E e s)"
    by (simp_all only: no_arrival_Cons [of E r e evs s])
  from suspended_quiet_step [OF Cons.prems(1,2,3) ne q] have "suspended (step E e s) r w" .
  from Cons.IH [OF w1 r1 this nt qs] show ?case by (simp add: run_Cons)
qed

text \<open>The clock.\<close>

lemma st_tick: "st (tick E te c) = step E (snd te) (st c)"
  by (simp add: tick_def Let_def)

lemma clock_tick: "clock (tick E te c) = fst te"
  by (simp add: tick_def Let_def)

lemma sent_tick:
  "sent (tick E te c)
     = sent c @ map (Pair (fst te)) (drop (length (out (st c))) (out (step E (snd te) (st c))))"
  by (simp add: tick_def Let_def)

lemma run_timed_Nil: "run_timed E [] c = c"
  by (simp add: run_timed_def)

lemma run_timed_Cons: "run_timed E (te # tes) c = run_timed E tes (tick E te c)"
  by (simp add: run_timed_def)

lemma run_timed_append: "run_timed E (xs @ ys) c = run_timed E ys (run_timed E xs c)"
  by (simp add: run_timed_def)

lemma st_run_timed: "st (run_timed E tes c) = run E (map snd tes) (st c)"
  by (induction tes arbitrary: c) (simp_all add: run_timed_Nil run_timed_Cons run_def st_tick)

lemma punctual_append:
  "punctual E (xs @ ys) c \<longleftrightarrow> punctual E xs c \<and> punctual E ys (run_timed E xs c)"
  by (induction xs arbitrary: c) (simp_all add: run_timed_Nil run_timed_Cons)

lemma due_tick: "map_of (due c) t = Some d \<Longrightarrow> map_of (due (tick E te c)) t = Some d"
  by (simp add: tick_def Let_def map_add_def)

lemma armed_keys:
  "fst ` set (map (\<lambda>(t, tm). (t, g tm)) (filter P al)) \<subseteq> fst ` set al"
  by (induction al) auto

lemma due_keys:
  "fst ` set (due (tick E te c))
     \<subseteq> fst ` set (due c) \<union> fst ` set (timers (step E (snd te) (st c)))"
proof -
  have "due (tick E te c)
      = due c @ map (\<lambda>(t, tm). (t, fst te + timer_delay (t_delay tm)))
                  (filter (\<lambda>(t, tm). map_of (timers (st c)) t = None)
                     (timers (step E (snd te) (st c))))"
    by (simp add: tick_def Let_def)
  then show ?thesis
    using armed_keys [of "\<lambda>tm. fst te + timer_delay (t_delay tm)"
        "\<lambda>(t, tm). map_of (timers (st c)) t = None" "timers (step E (snd te) (st c))"]
    by (simp only: set_append image_Un) blast
qed

lemma due_fresh_tick:
  assumes w: "wf_daemon (st c)" and f: "\<forall>t \<in> fst ` set (due c). t < next_id (st c)"
  shows "\<forall>t \<in> fst ` set (due (tick E te c)). t < next_id (st (tick E te c))"
proof
  fix t assume "t \<in> fst ` set (due (tick E te c))"
  with due_keys [of E te c]
  have "t \<in> fst ` set (due c) \<or> t \<in> fst ` set (timers (step E (snd te) (st c)))"
    by blast
  then show "t < next_id (st (tick E te c))"
  proof
    assume "t \<in> fst ` set (due c)"
    with f advances_next [OF advances_step, of "st c" E "snd te"] show ?thesis
      by (auto simp: st_tick)
  next
    assume t: "t \<in> fst ` set (timers (step E (snd te) (st c)))"
    from wf_fresh [OF wf_step [OF w, of E "snd te"]] t show ?thesis
      unfolding ids_fresh_def st_tick by blast
  qed
qed

lemma timed_reachable:
  "reachable E (st (run_timed E tes (start i \<tau>))) \<and>
   (\<forall>t \<in> fst ` set (due (run_timed E tes (start i \<tau>))).
      t < next_id (st (run_timed E tes (start i \<tau>))))"
proof (induction tes rule: rev_induct)
  case Nil
  show ?case by (simp add: run_timed_Nil start_def reachable_init)
next
  case (snoc te tes)
  let ?c = "run_timed E tes (start i \<tau>)"
  from snoc have r: "reachable E (st ?c)" and f: "\<forall>t \<in> fst ` set (due ?c). t < next_id (st ?c)"
    by simp_all
  have e: "run_timed E (tes @ [te]) (start i \<tau>) = tick E te ?c"
    by (simp add: run_timed_append run_timed_Cons run_timed_Nil)
  from reachable_step [OF r, of "snd te"] due_fresh_tick [OF reachable_wf [OF r] f, of E te]
  show ?case unfolding e by (simp add: st_tick)
qed

lemma filter_pending: "filter (\<lambda>(t, tm). map_of al t = None) al = []"
  by (auto simp: filter_empty_conv map_of_eq_None_iff intro: rev_image_eqI)

lemma due_read:
  assumes w: "wf_daemon (st c)" and f: "\<forall>t \<in> fst ` set (due c). t < next_id (st c)"
    and g: "get_channel (st c) name = Some (r, ch)" and m: "messages ch = []"
  shows "map_of (due (tick E (\<tau>, Exec now sock (Read name True timeout)) c)) (next_id (st c))
       = Some (\<tau> + timer_delay (read_timeout timeout))"
proof -
  from f have "next_id (st c) \<notin> fst ` set (due c)" by blast
  then have n: "map_of (due c) (next_id (st c)) = None" by (simp add: map_of_eq_None_iff)
  show ?thesis
    unfolding tick_def Let_def
    by (simp add: read_suspends [OF g m] filter_pending fresh_timer [OF w] map_add_def n
        del: exec.simps)
qed

lemma punctual_pending:
  assumes p: "punctual E (te # tes) c" and t: "map_of (timers (st c)) t = Some tm"
    and d: "map_of (due c) t = Some D"
  shows "if snd te = TimerFired t then fst te = D else fst te \<le> D"
proof -
  from t have "(t, tm) \<in> set (timers (st c))" by (rule map_of_SomeD)
  with p d show ?thesis by (auto split: option.splits if_splits)
qed

lemma timed_progress:
  "wf_daemon (st c) \<Longrightarrow> refs_ok (st c) \<Longrightarrow> map_of (due c) (wid w) = Some D \<Longrightarrow>
   punctual E tes c \<Longrightarrow>
   suspended (st c) r w \<and> clock c \<le> D \<or> resolved (st c) (wid w) \<Longrightarrow>
   suspended (st (run_timed E tes c)) r w \<and> clock (run_timed E tes c) \<le> D \<or>
   resolved (st (run_timed E tes c)) (wid w)"
proof (induction tes arbitrary: c)
  case Nil
  then show ?case by (simp add: run_timed_Nil)
next
  case (Cons te tes)
  let ?c1 = "tick E te c"
  have w1: "wf_daemon (st ?c1)" unfolding st_tick by (rule wf_step [OF Cons.prems(1)])
  have r1: "refs_ok (st ?c1)" unfolding st_tick by (rule advances_refs [OF advances_step Cons.prems(2)])
  note d1 = due_tick [OF Cons.prems(3), of E te]
  from Cons.prems(4) have p1: "punctual E tes ?c1" by simp
  have "suspended (st ?c1) r w \<and> clock ?c1 \<le> D \<or> resolved (st ?c1) (wid w)"
    using Cons.prems(5)
  proof
    assume a: "suspended (st c) r w \<and> clock c \<le> D"
    then have su: "suspended (st c) r w" by simp
    from suspended_pending [OF su] obtain tm where t: "map_of (timers (st c)) (wid w) = Some tm"
      by blast
    from punctual_pending [OF Cons.prems(4) t Cons.prems(3)] have "fst te \<le> D"
      by (simp split: if_splits)
    with suspended_step(3) [OF Cons.prems(1,2) su, of E "snd te"] show ?thesis
      by (auto simp: st_tick clock_tick)
  next
    assume "resolved (st c) (wid w)"
    from resolved_advances [OF advances_step this] show ?thesis by (simp add: st_tick)
  qed
  from Cons.IH [OF w1 r1 d1 p1 this] show ?case by (simp add: run_timed_Cons)
qed

lemma timed_not_before:
  "wf_daemon (st c) \<Longrightarrow> refs_ok (st c) \<Longrightarrow> map_of (due c) (wid w) = Some D \<Longrightarrow>
   punctual E tes c \<Longrightarrow> no_arrival E r (map snd tes) (st c) \<Longrightarrow>
   suspended (st c) r w \<or> resolved (st c) (wid w) \<and> D \<le> clock c \<Longrightarrow>
   suspended (st (run_timed E tes c)) r w \<or>
   resolved (st (run_timed E tes c)) (wid w) \<and> D \<le> clock (run_timed E tes c)"
proof (induction tes arbitrary: c)
  case Nil
  then show ?case by (simp add: run_timed_Nil)
next
  case (Cons te tes)
  let ?c1 = "tick E te c"
  have w1: "wf_daemon (st ?c1)" unfolding st_tick by (rule wf_step [OF Cons.prems(1)])
  have r1: "refs_ok (st ?c1)" unfolding st_tick by (rule advances_refs [OF advances_step Cons.prems(2)])
  note d1 = due_tick [OF Cons.prems(3), of E te]
  from Cons.prems(4) have p1: "punctual E tes ?c1" and ck: "clock c \<le> fst te" by simp_all
  from Cons.prems(5) have q: "no_arrival E r [snd te] (st c)"
    and q1: "no_arrival E r (map snd tes) (st ?c1)"
    by (simp_all only: list.map no_arrival_Cons [of E r "snd te" "map snd tes" "st c"] st_tick)
  have "suspended (st ?c1) r w \<or> resolved (st ?c1) (wid w) \<and> D \<le> clock ?c1"
    using Cons.prems(6)
  proof
    assume su: "suspended (st c) r w"
    from suspended_pending [OF su] obtain tm where t: "map_of (timers (st c)) (wid w) = Some tm"
      by blast
    note pp = punctual_pending [OF Cons.prems(4) t Cons.prems(3)]
    show ?thesis
    proof (cases "snd te = TimerFired (wid w)")
      case True
      with pp have "fst te = D" by simp
      with timer_resolves(2) [OF Cons.prems(1) su] True show ?thesis
        by (simp add: st_tick clock_tick)
    next
      case False
      from suspended_quiet_step [OF Cons.prems(1,2) su False q] show ?thesis
        by (simp add: st_tick)
    qed
  next
    assume "resolved (st c) (wid w) \<and> D \<le> clock c"
    with resolved_advances [OF advances_step, of "st c" "wid w" E "snd te"] ck show ?thesis
      by (simp add: st_tick clock_tick)
  qed
  from Cons.IH [OF w1 r1 d1 p1 q1 this] show ?case by (simp add: run_timed_Cons)
qed

lemma timed_fire:
  assumes w: "wf_daemon (st c)" and su: "suspended (st c) r w"
    and d: "map_of (due c) (wid w) = Some D" and p: "punctual E [te] c"
    and e: "snd te = TimerFired (wid w)"
  shows "fst te = D" and "sent (tick E te c) = sent c @ [(D, w_sock w, OkMessages [])]"
    and "resolved (st (tick E te c)) (wid w)"
proof -
  from suspended_pending [OF su] obtain tm where t: "map_of (timers (st c)) (wid w) = Some tm"
    by blast
  from punctual_pending [OF p t d] e show 1: "fst te = D" by simp
  from timer_resolves(1) [OF w su]
  show "sent (tick E te c) = sent c @ [(D, w_sock w, OkMessages [])]"
    by (simp add: sent_tick e 1)
  from timer_resolves(2) [OF w su] show "resolved (st (tick E te c)) (wid w)"
    by (simp add: st_tick e)
qed

lemma only_timer:
  assumes w: "wf_daemon (st c)" and rf: "refs_ok (st c)" and su: "suspended (st c) r w"
    and q: "no_arrival E r [snd te] (st c)" and rs: "resolved (st (tick E te c)) (wid w)"
  shows "snd te = TimerFired (wid w)"
proof (rule ccontr)
  assume "snd te \<noteq> TimerFired (wid w)"
  from suspended_quiet_step [OF w rf su this q] have "suspended (st (tick E te c)) r w"
    by (simp add: st_tick)
  from suspended_not_resolved [OF this] rs show False by simp
qed

lemma timer_delay_cases:
  "1 \<le> timer_delay d"
  "1 \<le> d \<Longrightarrow> d \<le> 2147483647 \<Longrightarrow> timer_delay d = d"
  "d < 1 \<or> 2147483647 < d \<Longrightarrow> timer_delay d = 1"
  by (auto simp: timer_delay_def)


lemma due_run: "map_of (due c) t = Some d \<Longrightarrow> map_of (due (run_timed E tes c)) t = Some d"
  by (induction tes arbitrary: c) (simp_all add: run_timed_Nil run_timed_Cons due_tick)

lemma timed_read:
  assumes c0: "c0 = run_timed E tes0 (start i \<tau>s)"
    and g: "get_channel (st c0) name = Some (r, ch)" and m: "messages ch = []"
    and w: "w = \<lparr>wid = next_id (st c0), w_sock = sock\<rparr>"
    and c1: "c1 = run_timed E ((\<tau>0, Exec now sock (Read name True timeout)) # rest) c0"
    and D: "D = \<tau>0 + timer_delay (read_timeout timeout)"
    and p: "punctual E (tes0 @ (\<tau>0, Exec now sock (Read name True timeout)) # rest @ [te]) (start i \<tau>s)"
  shows "D < clock c1 \<longrightarrow> resolved (st c1) (wid w)"
    and "no_arrival E r (map snd rest) (exec E now sock (Read name True timeout) (st c0)) \<and>
         clock c1 < D \<longrightarrow> suspended (st c1) r w"
    and "suspended (st c1) r w \<and> snd te = TimerFired (wid w) \<longrightarrow>
           fst te = D \<and> sent (tick E te c1) = sent c1 @ [(D, sock, OkMessages [])] \<and>
           resolved (st (tick E te c1)) (wid w)"
    and "suspended (st c1) r w \<and> no_arrival E r [snd te] (st c1) \<and>
         resolved (st (tick E te c1)) (wid w) \<longrightarrow> snd te = TimerFired (wid w)"
proof -
  let ?rd = "(\<tau>0, Exec now sock (Read name True timeout))"
  let ?ca = "tick E ?rd c0"
  from timed_reachable [of E tes0 i \<tau>s] have re: "reachable E (st c0)"
    and fr: "\<forall>t \<in> fst ` set (due c0). t < next_id (st c0)" by (simp_all add: c0)
  note w0 = reachable_wf [OF re] and r0 = reachable_refs [OF re]
  have sa: "st ?ca = exec E now sock (Read name True timeout) (st c0)" by (simp add: st_tick)
  have wa: "wf_daemon (st ?ca)" unfolding sa by (rule wf_exec [OF w0])
  have ra: "refs_ok (st ?ca)" unfolding sa by (rule advances_refs [OF advances_exec r0])
  have su: "suspended (st ?ca) r w" unfolding sa w by (rule read_registers(4) [OF w0 g m])
  have da: "map_of (due ?ca) (wid w) = Some D"
    using due_read [OF w0 fr g m, of E \<tau>0 now sock timeout] by (simp add: w D)
  have ck: "clock ?ca \<le> D" using timer_delay_cases(1) [of "read_timeout timeout"]
    by (simp add: clock_tick D)
  have e1: "c1 = run_timed E rest ?ca" by (simp add: c1 run_timed_Cons)
  from p have pa: "punctual E rest ?ca" and pt: "punctual E [te] c1"
    by (simp_all add: punctual_append c0 [symmetric] e1 del: punctual.simps(2))
       (simp_all add: punctual_append)
  note d1 = due_run [OF da, of E rest]
  have w1: "wf_daemon (st c1)" unfolding e1 st_run_timed by (rule wf_run [OF wa])
  have r1: "refs_ok (st c1)" unfolding e1 st_run_timed by (rule refs_run [OF ra])
  from timed_progress [OF wa ra da pa, of r] su ck
  have "suspended (st c1) r w \<and> clock c1 \<le> D \<or> resolved (st c1) (wid w)" by (simp add: e1)
  then show "D < clock c1 \<longrightarrow> resolved (st c1) (wid w)" by auto
  show "no_arrival E r (map snd rest) (exec E now sock (Read name True timeout) (st c0)) \<and>
         clock c1 < D \<longrightarrow> suspended (st c1) r w"
  proof (intro impI, elim conjE)
    assume q: "no_arrival E r (map snd rest) (exec E now sock (Read name True timeout) (st c0))"
      and lt: "clock c1 < D"
    from q have "no_arrival E r (map snd rest) (st ?ca)" by (simp only: sa)
    from timed_not_before [OF wa ra da pa this] su
    have "suspended (st c1) r w \<or> resolved (st c1) (wid w) \<and> D \<le> clock c1" by (simp add: e1)
    with lt show "suspended (st c1) r w" by auto
  qed
  show "suspended (st c1) r w \<and> snd te = TimerFired (wid w) \<longrightarrow>
           fst te = D \<and> sent (tick E te c1) = sent c1 @ [(D, sock, OkMessages [])] \<and>
           resolved (st (tick E te c1)) (wid w)"
  proof (intro impI, elim conjE)
    assume s: "suspended (st c1) r w" and e: "snd te = TimerFired (wid w)"
    from timed_fire [OF w1 s _ pt e, of D] d1 e1
    show "fst te = D \<and> sent (tick E te c1) = sent c1 @ [(D, sock, OkMessages [])] \<and>
           resolved (st (tick E te c1)) (wid w)"
      by (simp add: w)
  qed
  show "suspended (st c1) r w \<and> no_arrival E r [snd te] (st c1) \<and>
         resolved (st (tick E te c1)) (wid w) \<longrightarrow> snd te = TimerFired (wid w)"
    using only_timer [OF w1 r1, of r w E te] by blast
qed

text \<open>The sample schedule.\<close>

lemma tick_idle:
  "step E e s = s' \<Longrightarrow> timers s' = [] \<Longrightarrow> out s' = out s @ new \<Longrightarrow>
   tick E (\<tau>, e) \<lparr>st = s, clock = k, due = d, sent = o'\<rparr>
     = \<lparr>st = s', clock = \<tau>, due = d, sent = o' @ map (Pair \<tau>) new\<rparr>"
  by (simp add: tick_def Let_def)

lemma boot_eval:
  "before_read = \<lparr>st = matched, clock = 3, due = [], sent = [(1, 1, OkChannel ''room'')]\<rparr> \<and>
   punctual demo_env boot (start ''d0'' 0)"
proof (rule conjI)
  define sa where "sa = step demo_env (Exec 0 1 (Join ''room'' ''s1'')) (init ''d0'')"
  define sb where "sb = step demo_env (PeerConnect ''kB'') joined"
  have sa: "timers sa = []" "out sa = []"
    by (simp_all add: sa_def joinChannel_def init_def demo_env_def Let_def)
  have j: "step demo_env (JoinFlushed 0) sa = joined"
    by (simp add: sa_def joined_def run_def)
  have sb: "timers sb = []" "out sb = out joined"
    by (simp_all add: sb_def onPeer_def joined_simps Let_def)
  have m: "step demo_env (PeerData 2 (js ''Hroom/s1'' @ [0x0A])) sb = matched"
    by (simp add: sb_def matched_def run_def)
  have 1: "tick demo_env (0, Exec 0 1 (Join ''room'' ''s1'')) (start ''d0'' 0)
         = \<lparr>st = sa, clock = 0, due = [], sent = []\<rparr>"
  proof -
    have a: "step demo_env (Exec 0 1 (Join ''room'' ''s1'')) (init ''d0'') = sa" by (simp only: sa_def)
    have b: "out sa = out (init ''d0'') @ []" by (simp add: sa init_def)
    from tick_idle [OF a sa(1) b, of 0 0 "[]" "[]"] show ?thesis by (simp add: start_def)
  qed
  have 2: "tick demo_env (1, JoinFlushed 0) \<lparr>st = sa, clock = 0, due = [], sent = []\<rparr>
         = \<lparr>st = joined, clock = 1, due = [], sent = [(1, 1, OkChannel ''room'')]\<rparr>"
    using tick_idle [OF j, where new = "[(1, OkChannel ''room'')]" and \<tau> = 1 and k = 0 and d = "[]" and o' = "[]"]
    by (simp add: joined_simps sa)
  have 3: "tick demo_env (2, PeerConnect ''kB'')
             \<lparr>st = joined, clock = 1, due = [], sent = [(1, 1, OkChannel ''room'')]\<rparr>
         = \<lparr>st = sb, clock = 2, due = [], sent = [(1, 1, OkChannel ''room'')]\<rparr>"
  proof -
    have a: "step demo_env (PeerConnect ''kB'') joined = sb" by (simp only: sb_def)
    have b: "out sb = out joined @ []" by (simp add: sb)
    from tick_idle [OF a sb(1) b, of 2 1 "[]" "[(1, 1, OkChannel ''room'')]"] show ?thesis by simp
  qed
  have 4: "tick demo_env (3, PeerData 2 (js ''Hroom/s1'' @ [0x0A]))
             \<lparr>st = sb, clock = 2, due = [], sent = [(1, 1, OkChannel ''room'')]\<rparr>
         = \<lparr>st = matched, clock = 3, due = [], sent = [(1, 1, OkChannel ''room'')]\<rparr>"
    using tick_idle [OF m, where new = "[]" and \<tau> = 3 and k = 2 and d = "[]" and o' = "[(1, 1, OkChannel ''room'')]"]
    by (simp add: matched_simps sb joined_simps)
  show "before_read = \<lparr>st = matched, clock = 3, due = [], sent = [(1, 1, OkChannel ''room'')]\<rparr>"
    by (simp only: before_read_def boot_def run_timed_def foldl_Cons foldl_Nil 1 2 3 4)
  show "punctual demo_env boot (start ''d0'' 0)"
    unfolding boot_def
    by (simp only: punctual.simps 1 2 3 4) (simp add: start_def init_def sa sb joined_simps)
qed

lemma before_read_eq:
  "before_read = \<lparr>st = matched, clock = 3, due = [], sent = [(1, 1, OkChannel ''room'')]\<rparr>"
  by (rule conjunct1 [OF boot_eval])

lemma boot_punctual: "punctual demo_env boot (start ''d0'' 0)"
  by (rule conjunct2 [OF boot_eval])


lemma waiting_suspended: "suspended waiting 1 \<lparr>wid = 3, w_sock = 7\<rparr>"
  by (simp add: suspended_def waiter_armed_def waiting_simps)

lemma pinged_simps:
  "heap (reply 8 Ok waiting) = heap waiting" "timers (reply 8 Ok waiting) = timers waiting"
  "out (reply 8 Ok waiting) = out waiting @ [(8, Ok)]"
  "pstore (reply 8 Ok waiting) = pstore waiting" "peers (reply 8 Ok waiting) = peers waiting"
  "channels (reply 8 Ok waiting) = channels waiting"
  by (simp_all add: reply_def)

lemma read_eval:
  "during_read = \<lparr>st = reply 8 Ok waiting, clock = 20, due = [(3, 30010)],
                   sent = [(1, 1, OkChannel ''room''), (20, 8, Ok)]\<rparr> \<and>
   punctual demo_env [(10, Exec 0 7 (Read ''room'' True None)), (20, Exec 0 8 Ping),
                      (30010, TimerFired 3)] before_read"
proof (rule conjI)
  have 1: "tick demo_env (10, Exec 0 7 (Read ''room'' True None))
             \<lparr>st = matched, clock = 3, due = [], sent = [(1, 1, OkChannel ''room'')]\<rparr>
         = \<lparr>st = waiting, clock = 10, due = [(3, 30010)], sent = [(1, 1, OkChannel ''room'')]\<rparr>"
    by (simp add: tick_def Let_def waiting_def [symmetric] waiting_simps matched_simps
        timer_delay_def del: exec.simps)
  have 2: "tick demo_env (20, Exec 0 8 Ping)
             \<lparr>st = waiting, clock = 10, due = [(3, 30010)], sent = [(1, 1, OkChannel ''room'')]\<rparr>
         = \<lparr>st = reply 8 Ok waiting, clock = 20, due = [(3, 30010)],
             sent = [(1, 1, OkChannel ''room''), (20, 8, Ok)]\<rparr>"
    by (simp add: tick_def Let_def pinged_simps waiting_simps)
  show "during_read = \<lparr>st = reply 8 Ok waiting, clock = 20, due = [(3, 30010)],
                   sent = [(1, 1, OkChannel ''room''), (20, 8, Ok)]\<rparr>"
    by (simp only: during_read_def before_read_eq run_timed_def foldl_Cons foldl_Nil 1 2)
  show "punctual demo_env [(10, Exec 0 7 (Read ''room'' True None)), (20, Exec 0 8 Ping),
                          (30010, TimerFired 3)] before_read"
    by (simp only: before_read_eq punctual.simps 1 2)
       (simp add: matched_simps waiting_simps pinged_simps)
qed

lemma during_read_eq:
  "during_read = \<lparr>st = reply 8 Ok waiting, clock = 20, due = [(3, 30010)],
                   sent = [(1, 1, OkChannel ''room''), (20, 8, Ok)]\<rparr>"
  by (rule conjunct1 [OF read_eval])

lemma read_punctual:
  "punctual demo_env [(10, Exec 0 7 (Read ''room'' True None)), (20, Exec 0 8 Ping),
                      (30010, TimerFired 3)] before_read"
  by (rule conjunct2 [OF read_eval])

lemma hello_again:
  "heap (onData demo_env 2 (js ''Hroom/s1'' @ [0x0A]) (reply 8 Ok waiting)) = heap waiting"
proof -
  have p: "pstore (reply 8 Ok waiting) 2 = Some peerB" by (simp add: pinged_simps waiting_simps)
  have live: "\<not> conn_destroyed peerB" and b: "buf peerB = []" and k: "remoteKey peerB = ''kB''"
    by (simp_all add: peerB_def)
  have l: "length (buf peerB @ js ''Hroom/s1'' @ [0x0A]) \<le> MAX_PEER_BUFFER"
    by (simp add: b js_def MAX_PEER_BUFFER_def)
  have nl: "0x0A \<notin> set (js ''Hroom/s1'')" by (simp add: js_simps)
  show ?thesis
    unfolding onData_live [OF p live l] b k append_Nil
    by (subst lines_loop_line [OF nl])
       (simp add: lines_loop_done blank_def is_space_def js_simps
        demo_env_def set_buf_def pinged_simps waiting_simps get_peer_def room_def)
qed

lemma second_read:
  "exec demo_env 0 8 (Read ''room'' True None) waiting
     = waiting\<lparr> timers := [(3, \<lparr>t_ch = 1, t_sock = 7, t_delay = 30000\<rparr>),
                           (4, \<lparr>t_ch = 1, t_sock = 8, t_delay = 30000\<rparr>)],
                heap := (\<lambda>_. None)(1 \<mapsto> room\<lparr>ch_peers := [''kB''],
                           waiters := [\<lparr>wid = 3, w_sock = 7\<rparr>, \<lparr>wid = 4, w_sock = 8\<rparr>]\<rparr>),
                next_id := 5 \<rparr>"
  by (simp add: waiting_channel waiting_simps read_timeout_def room_def)

text \<open>
  Claim C3, as amended. On a joined channel with an empty buffer, a read with waiting
  requested writes no reply, queues its waiter and arms its timer with
  \<^verbatim>\<open>(cmd.timeout || 30) * 1000\<close> ms. Whatever events follow, the read is either still suspended
  or resolved, and it stays suspended as long as its timer has not fired and no message
  has arrived for the channel. In every state the daemon passes through, a suspended read
  is resolved by its timer firing (the reply is the empty list and the waiter leaves the
  queue, the others staying in order) or by a message for its channel that finds it the
  oldest waiter (the reply is that one entry); a message that finds an older waiter, or is
  for another channel, leaves it suspended. Once resolved it stays so: its timer firing
  changes nothing, no queue holds the waiter, and a later message is buffered or handed to
  another waiter. On the clock, with the runtime running each timer when it is due, the
  read made at \<open>\<tau>0\<close> is due at \<open>D\<close>, its timeout later (30 s for an absent or zero timeout,
  1 ms for a delay that \<^verbatim>\<open>setTimeout\<close> does not accept): it is resolved at any time after \<open>D\<close>,
  with no message arriving it is suspended at any time before \<open>D\<close>, and the event that
  resolves it then is its timer firing at \<open>D\<close> exactly, replying the empty list.
\<close>

theorem suspended_read_resolved_once:
  assumes re: "reachable E s0" and c: "get_channel s0 name = Some (r, ch)" and m: "messages ch = []"
    and s1: "s1 = exec E now sock (Read name True timeout) s0"
    and w: "w = \<lparr>wid = next_id s0, w_sock = sock\<rparr>"
    and e: "e = \<lparr>e_from = (if i \<noteq> [] then i else take 8 key), e_data = data, e_ts = ts\<rparr>"
  shows
    "(out s1 = out s0 \<and> suspended s1 r w \<and>
      heap s1 r = Some (ch\<lparr>waiters := waiters ch @ [w]\<rparr>) \<and>
      map_of (timers s1) (wid w) = Some \<lparr>t_ch = r, t_sock = sock, t_delay = read_timeout timeout\<rparr> \<and>
      read_timeout timeout = (case timeout of None \<Rightarrow> 30 | Some n \<Rightarrow> if n = 0 then 30 else n) * 1000) \<and>
     (suspended (run E evs s1) r w \<or> resolved (run E evs s1) (wid w)) \<and>
     (TimerFired (wid w) \<notin> set evs \<and> no_arrival E r evs s1 \<longrightarrow> suspended (run E evs s1) r w) \<and>
     (visited E s \<and> suspended s r w \<longrightarrow>
        out (timerFired (wid w) s) = out s @ [(sock, OkMessages [])] \<and>
        resolved (timerFired (wid w) s) (wid w) \<and>
        map_option waiters (heap (timerFired (wid w) s) r)
          = map_option (\<lambda>ch. filter (\<lambda>x. x \<noteq> w) (waiters ch)) (heap s r) \<and>
        map_option messages (heap (timerFired (wid w) s) r) = map_option messages (heap s r) \<and>
        (suspended (onPeerMsg key m' s) r w \<or> resolved (onPeerMsg key m' s) (wid w)) \<and>
        (get_peer s key \<noteq> None \<and> byteLength data \<le> MAX_MESSAGE_SIZE \<and>
         find_topic s topic = Some (r', ch') \<longrightarrow>
           (if r' = r \<and> take 1 (waiters ch') = [w]
            then out (onPeerMsg key (FMsg topic data i ts) s) = out s @ [(sock, OkMessages [e])] \<and>
                 resolved (onPeerMsg key (FMsg topic data i ts) s) (wid w) \<and>
                 heap (onPeerMsg key (FMsg topic data i ts) s) r
                   = Some (ch'\<lparr>waiters := tl (waiters ch')\<rparr>)
            else suspended (onPeerMsg key (FMsg topic data i ts) s) r w))) \<and>
     (visited E s' \<and> resolved s' (wid w) \<longrightarrow>
        timerFired (wid w) s' = s' \<and>
        resolved (run E evs' s') (wid w) \<and> resolved (onPeerMsg key m' s') (wid w) \<and>
        (heap s' r2 = Some ch2 \<longrightarrow> w \<notin> set (waiters ch2)) \<and>
        (get_peer s' key \<noteq> None \<and> byteLength data \<le> MAX_MESSAGE_SIZE \<and>
         find_topic s' topic = Some (r2, ch2) \<longrightarrow>
           (case waiters ch2 of
              [] \<Rightarrow> out (onPeerMsg key (FMsg topic data i ts) s') = out s' \<and>
                    heap (onPeerMsg key (FMsg topic data i ts) s') r2
                      = Some (ch2\<lparr>messages := messages ch2 @ [e]\<rparr>)
            | x # xs \<Rightarrow> x \<noteq> w \<and>
                    out (onPeerMsg key (FMsg topic data i ts) s')
                      = out s' @ [(w_sock x, OkMessages [e])] \<and>
                    heap (onPeerMsg key (FMsg topic data i ts) s') r2 = Some (ch2\<lparr>waiters := xs\<rparr>)))) \<and>
     (c0 = run_timed E tes0 (start did \<tau>s) \<and> st c0 = s0 \<and>
      c1 = run_timed E ((\<tau>0, Exec now sock (Read name True timeout)) # rest) c0 \<and>
      D = \<tau>0 + timer_delay (read_timeout timeout) \<and>
      punctual E (tes0 @ (\<tau>0, Exec now sock (Read name True timeout)) # rest @ [te]) (start did \<tau>s) \<longrightarrow>
        \<tau>0 < D \<and>
        (1 \<le> read_timeout timeout \<and> read_timeout timeout \<le> 2147483647 \<longrightarrow>
           D = \<tau>0 + read_timeout timeout) \<and>
        (read_timeout timeout < 1 \<or> 2147483647 < read_timeout timeout \<longrightarrow> D = \<tau>0 + 1) \<and>
        (D < clock c1 \<longrightarrow> resolved (st c1) (wid w)) \<and>
        (no_arrival E r (map snd rest) s1 \<and> clock c1 < D \<longrightarrow> suspended (st c1) r w) \<and>
        (suspended (st c1) r w \<and> snd te = TimerFired (wid w) \<longrightarrow>
           fst te = D \<and> sent (tick E te c1) = sent c1 @ [(D, sock, OkMessages [])] \<and>
           resolved (st (tick E te c1)) (wid w)) \<and>
        (suspended (st c1) r w \<and> no_arrival E r [snd te] (st c1) \<and>
         resolved (st (tick E te c1)) (wid w) \<longrightarrow> snd te = TimerFired (wid w)))"
proof -
  note w0 = reachable_wf [OF re] and r0 = reachable_refs [OF re]
  note reg = read_registers [OF w0 c m, of E now sock timeout, folded s1 w]
  have ws: "wid w = next_id s0" "w_sock w = sock" by (simp_all add: w)
  have w1: "wf_daemon s1" unfolding s1 by (rule wf_exec [OF w0])
  have r1: "refs_ok s1" unfolding s1 by (rule advances_refs [OF advances_exec r0])
  have A: "out s1 = out s0 \<and> suspended s1 r w \<and>
      heap s1 r = Some (ch\<lparr>waiters := waiters ch @ [w]\<rparr>) \<and>
      map_of (timers s1) (wid w) = Some \<lparr>t_ch = r, t_sock = sock, t_delay = read_timeout timeout\<rparr> \<and>
      read_timeout timeout = (case timeout of None \<Rightarrow> 30 | Some n \<Rightarrow> if n = 0 then 30 else n) * 1000"
    using reg by (simp add: ws read_timeout_def)
  then have su: "suspended s1 r w" by simp
  have B: "suspended (run E evs s1) r w \<or> resolved (run E evs s1) (wid w)"
    by (rule suspended_or_resolved [OF w1 r1 su])
  have C: "TimerFired (wid w) \<notin> set evs \<and> no_arrival E r evs s1 \<longrightarrow> suspended (run E evs s1) r w"
    using suspended_quiet [OF w1 r1 su] by blast
  have F: "visited E s \<and> suspended s r w \<longrightarrow>
        out (timerFired (wid w) s) = out s @ [(sock, OkMessages [])] \<and>
        resolved (timerFired (wid w) s) (wid w) \<and>
        map_option waiters (heap (timerFired (wid w) s) r)
          = map_option (\<lambda>ch. filter (\<lambda>x. x \<noteq> w) (waiters ch)) (heap s r) \<and>
        map_option messages (heap (timerFired (wid w) s) r) = map_option messages (heap s r) \<and>
        (suspended (onPeerMsg key m' s) r w \<or> resolved (onPeerMsg key m' s) (wid w)) \<and>
        (get_peer s key \<noteq> None \<and> byteLength data \<le> MAX_MESSAGE_SIZE \<and>
         find_topic s topic = Some (r', ch') \<longrightarrow>
           (if r' = r \<and> take 1 (waiters ch') = [w]
            then out (onPeerMsg key (FMsg topic data i ts) s) = out s @ [(sock, OkMessages [e])] \<and>
                 resolved (onPeerMsg key (FMsg topic data i ts) s) (wid w) \<and>
                 heap (onPeerMsg key (FMsg topic data i ts) s) r
                   = Some (ch'\<lparr>waiters := tl (waiters ch')\<rparr>)
            else suspended (onPeerMsg key (FMsg topic data i ts) s) r w))"
  proof (intro impI, elim conjE)
    assume v: "visited E s" and su': "suspended s r w"
    from visited_inv [OF v] have wv: "wf_daemon s" by simp
    note tr = timer_resolves [OF wv su', unfolded ws(2)]
    have ms: "if r' = r \<and> take 1 (waiters ch') = [w]
            then out (onPeerMsg key (FMsg topic data i ts) s) = out s @ [(sock, OkMessages [e])] \<and>
                 resolved (onPeerMsg key (FMsg topic data i ts) s) (wid w) \<and>
                 heap (onPeerMsg key (FMsg topic data i ts) s) r
                   = Some (ch'\<lparr>waiters := tl (waiters ch')\<rparr>)
            else suspended (onPeerMsg key (FMsg topic data i ts) s) r w"
      if "get_peer s key \<noteq> None" "byteLength data \<le> MAX_MESSAGE_SIZE"
        "find_topic s topic = Some (r', ch')"
      using message_resolves [OF wv su' that, of i ts] unfolding ws(2) e .
    from tr onPeerMsg_cases [OF wv su', of key m'] ms
    show "out (timerFired (wid w) s) = out s @ [(sock, OkMessages [])] \<and>
        resolved (timerFired (wid w) s) (wid w) \<and>
        map_option waiters (heap (timerFired (wid w) s) r)
          = map_option (\<lambda>ch. filter (\<lambda>x. x \<noteq> w) (waiters ch)) (heap s r) \<and>
        map_option messages (heap (timerFired (wid w) s) r) = map_option messages (heap s r) \<and>
        (suspended (onPeerMsg key m' s) r w \<or> resolved (onPeerMsg key m' s) (wid w)) \<and>
        (get_peer s key \<noteq> None \<and> byteLength data \<le> MAX_MESSAGE_SIZE \<and>
         find_topic s topic = Some (r', ch') \<longrightarrow>
           (if r' = r \<and> take 1 (waiters ch') = [w]
            then out (onPeerMsg key (FMsg topic data i ts) s) = out s @ [(sock, OkMessages [e])] \<and>
                 resolved (onPeerMsg key (FMsg topic data i ts) s) (wid w) \<and>
                 heap (onPeerMsg key (FMsg topic data i ts) s) r
                   = Some (ch'\<lparr>waiters := tl (waiters ch')\<rparr>)
            else suspended (onPeerMsg key (FMsg topic data i ts) s) r w))"
      by blast
  qed
  have G: "visited E s' \<and> resolved s' (wid w) \<longrightarrow>
        timerFired (wid w) s' = s' \<and>
        resolved (run E evs' s') (wid w) \<and> resolved (onPeerMsg key m' s') (wid w) \<and>
        (heap s' r2 = Some ch2 \<longrightarrow> w \<notin> set (waiters ch2)) \<and>
        (get_peer s' key \<noteq> None \<and> byteLength data \<le> MAX_MESSAGE_SIZE \<and>
         find_topic s' topic = Some (r2, ch2) \<longrightarrow>
           (case waiters ch2 of
              [] \<Rightarrow> out (onPeerMsg key (FMsg topic data i ts) s') = out s' \<and>
                    heap (onPeerMsg key (FMsg topic data i ts) s') r2
                      = Some (ch2\<lparr>messages := messages ch2 @ [e]\<rparr>)
            | x # xs \<Rightarrow> x \<noteq> w \<and>
                    out (onPeerMsg key (FMsg topic data i ts) s')
                      = out s' @ [(w_sock x, OkMessages [e])] \<and>
                    heap (onPeerMsg key (FMsg topic data i ts) s') r2 = Some (ch2\<lparr>waiters := xs\<rparr>)))"
  proof (intro impI, elim conjE)
    assume v: "visited E s'" and rs: "resolved s' (wid w)"
    from visited_inv [OF v] have wv: "wf_daemon s'" by simp
    from rs have 1: "timerFired (wid w) s' = s'" by (simp add: timerFired_def resolved_def)
    note 2 = resolved_run [OF rs, of E evs'] resolved_advances [OF advances_onPeerMsg rs, of key m']
    have 3: "w \<notin> set (waiters ch2)" if "heap s' r2 = Some ch2"
      using resolved_unqueued [OF wv rs that] by auto
    have 4: "case waiters ch2 of
              [] \<Rightarrow> out (onPeerMsg key (FMsg topic data i ts) s') = out s' \<and>
                    heap (onPeerMsg key (FMsg topic data i ts) s') r2
                      = Some (ch2\<lparr>messages := messages ch2 @ [e]\<rparr>)
            | x # xs \<Rightarrow> x \<noteq> w \<and>
                    out (onPeerMsg key (FMsg topic data i ts) s')
                      = out s' @ [(w_sock x, OkMessages [e])] \<and>
                    heap (onPeerMsg key (FMsg topic data i ts) s') r2 = Some (ch2\<lparr>waiters := xs\<rparr>)"
      if "get_peer s' key \<noteq> None" "byteLength data \<le> MAX_MESSAGE_SIZE"
        "find_topic s' topic = Some (r2, ch2)"
      using late_message [OF wv rs that, of i ts] unfolding e .
    from 1 2 3 4
    show "timerFired (wid w) s' = s' \<and>
        resolved (run E evs' s') (wid w) \<and> resolved (onPeerMsg key m' s') (wid w) \<and>
        (heap s' r2 = Some ch2 \<longrightarrow> w \<notin> set (waiters ch2)) \<and>
        (get_peer s' key \<noteq> None \<and> byteLength data \<le> MAX_MESSAGE_SIZE \<and>
         find_topic s' topic = Some (r2, ch2) \<longrightarrow>
           (case waiters ch2 of
              [] \<Rightarrow> out (onPeerMsg key (FMsg topic data i ts) s') = out s' \<and>
                    heap (onPeerMsg key (FMsg topic data i ts) s') r2
                      = Some (ch2\<lparr>messages := messages ch2 @ [e]\<rparr>)
            | x # xs \<Rightarrow> x \<noteq> w \<and>
                    out (onPeerMsg key (FMsg topic data i ts) s')
                      = out s' @ [(w_sock x, OkMessages [e])] \<and>
                    heap (onPeerMsg key (FMsg topic data i ts) s') r2 = Some (ch2\<lparr>waiters := xs\<rparr>)))"
      by blast
  qed
  have T: "c0 = run_timed E tes0 (start did \<tau>s) \<and> st c0 = s0 \<and>
      c1 = run_timed E ((\<tau>0, Exec now sock (Read name True timeout)) # rest) c0 \<and>
      D = \<tau>0 + timer_delay (read_timeout timeout) \<and>
      punctual E (tes0 @ (\<tau>0, Exec now sock (Read name True timeout)) # rest @ [te]) (start did \<tau>s) \<longrightarrow>
        \<tau>0 < D \<and>
        (1 \<le> read_timeout timeout \<and> read_timeout timeout \<le> 2147483647 \<longrightarrow>
           D = \<tau>0 + read_timeout timeout) \<and>
        (read_timeout timeout < 1 \<or> 2147483647 < read_timeout timeout \<longrightarrow> D = \<tau>0 + 1) \<and>
        (D < clock c1 \<longrightarrow> resolved (st c1) (wid w)) \<and>
        (no_arrival E r (map snd rest) s1 \<and> clock c1 < D \<longrightarrow> suspended (st c1) r w) \<and>
        (suspended (st c1) r w \<and> snd te = TimerFired (wid w) \<longrightarrow>
           fst te = D \<and> sent (tick E te c1) = sent c1 @ [(D, sock, OkMessages [])] \<and>
           resolved (st (tick E te c1)) (wid w)) \<and>
        (suspended (st c1) r w \<and> no_arrival E r [snd te] (st c1) \<and>
         resolved (st (tick E te c1)) (wid w) \<longrightarrow> snd te = TimerFired (wid w))"
  proof (intro impI, elim conjE)
    assume c0: "c0 = run_timed E tes0 (start did \<tau>s)" and st0: "st c0 = s0"
      and c1: "c1 = run_timed E ((\<tau>0, Exec now sock (Read name True timeout)) # rest) c0"
      and D: "D = \<tau>0 + timer_delay (read_timeout timeout)"
      and p: "punctual E (tes0 @ (\<tau>0, Exec now sock (Read name True timeout)) # rest @ [te]) (start did \<tau>s)"
    from c have g: "get_channel (st c0) name = Some (r, ch)" by (simp add: st0)
    have w': "w = \<lparr>wid = next_id (st c0), w_sock = sock\<rparr>" by (simp add: w st0)
    note tr = timed_read [OF c0 g m w' c1 D p, unfolded st0, folded s1]
    from timer_delay_cases(1) [of "read_timeout timeout"] have 1: "\<tau>0 < D" by (simp add: D)
    have 2: "1 \<le> read_timeout timeout \<and> read_timeout timeout \<le> 2147483647 \<longrightarrow>
           D = \<tau>0 + read_timeout timeout"
      by (simp add: D timer_delay_def)
    have 3: "read_timeout timeout < 1 \<or> 2147483647 < read_timeout timeout \<longrightarrow> D = \<tau>0 + 1"
      by (simp add: D timer_delay_def)
    from 1 2 3 tr
    show "\<tau>0 < D \<and>
        (1 \<le> read_timeout timeout \<and> read_timeout timeout \<le> 2147483647 \<longrightarrow>
           D = \<tau>0 + read_timeout timeout) \<and>
        (read_timeout timeout < 1 \<or> 2147483647 < read_timeout timeout \<longrightarrow> D = \<tau>0 + 1) \<and>
        (D < clock c1 \<longrightarrow> resolved (st c1) (wid w)) \<and>
        (no_arrival E r (map snd rest) s1 \<and> clock c1 < D \<longrightarrow> suspended (st c1) r w) \<and>
        (suspended (st c1) r w \<and> snd te = TimerFired (wid w) \<longrightarrow>
           fst te = D \<and> sent (tick E te c1) = sent c1 @ [(D, sock, OkMessages [])] \<and>
           resolved (st (tick E te c1)) (wid w)) \<and>
        (suspended (st c1) r w \<and> no_arrival E r [snd te] (st c1) \<and>
         resolved (st (tick E te c1)) (wid w) \<longrightarrow> snd te = TimerFired (wid w))"
      by (intro conjI)
  qed
  show ?thesis
    by (rule conjI [OF A conjI [OF B conjI [OF C conjI [OF F conjI [OF G T]]]]])
qed

theorem suspended_read_resolved_once_witness:
  "reachable demo_env matched \<and>
   get_channel matched ''room'' = Some (1, room\<lparr>ch_peers := [''kB'']\<rparr>) \<and>
   messages (room\<lparr>ch_peers := [''kB'']\<rparr>) = [] \<and>
   out waiting = out matched \<and> suspended waiting 1 \<lparr>wid = 3, w_sock = 7\<rparr> \<and>
   map_of (timers waiting) 3 = Some \<lparr>t_ch = 1, t_sock = 7, t_delay = 30000\<rparr> \<and>
   TimerFired 3 \<notin> set [Exec 0 8 Ping, PeerData 2 (js ''Hroom/s1'' @ [0x0A])] \<and>
   no_arrival demo_env 1 [Exec 0 8 Ping, PeerData 2 (js ''Hroom/s1'' @ [0x0A])] waiting \<and>
   suspended (run demo_env [Exec 0 8 Ping, PeerData 2 (js ''Hroom/s1'' @ [0x0A])] waiting) 1
     \<lparr>wid = 3, w_sock = 7\<rparr> \<and>
   visited demo_env waiting \<and>
   out (timerFired 3 waiting) = out waiting @ [(7, OkMessages [])] \<and>
   resolved (timerFired 3 waiting) 3 \<and>
   get_peer waiting ''kB'' \<noteq> None \<and> byteLength (js ''hi'') \<le> MAX_MESSAGE_SIZE \<and>
   find_topic waiting ''room/s1''
     = Some (1, room\<lparr>ch_peers := [''kB''], waiters := [\<lparr>wid = 3, w_sock = 7\<rparr>]\<rparr>) \<and>
   out (onPeerMsg ''kB'' (FMsg ''room/s1'' (js ''hi'') ''peerB'' 7) waiting)
     = out waiting @ [(7, OkMessages [hi])] \<and>
   resolved (onPeerMsg ''kB'' (FMsg ''room/s1'' (js ''hi'') ''peerB'' 7) waiting) 3 \<and>
   visited demo_env timed_out \<and> resolved timed_out 3 \<and>
   timerFired 3 timed_out = timed_out \<and>
   get_peer timed_out ''kB'' \<noteq> None \<and>
   find_topic timed_out ''room/s1'' = Some (1, room\<lparr>ch_peers := [''kB'']\<rparr>) \<and>
   out (onPeerMsg ''kB'' (FMsg ''room/s1'' (js ''hi'') ''peerB'' 7) timed_out) = out timed_out \<and>
   heap (onPeerMsg ''kB'' (FMsg ''room/s1'' (js ''hi'') ''peerB'' 7) timed_out) 1
     = Some (room\<lparr>ch_peers := [''kB''], messages := [hi]\<rparr>) \<and>
   st before_read = matched \<and>
   punctual demo_env
     (boot @ (10, Exec 0 7 (Read ''room'' True None)) # [(20, Exec 0 8 Ping)] @ [(30010, TimerFired 3)])
     (start ''d0'' 0) \<and>
   clock during_read = 20 \<and> suspended (st during_read) 1 \<lparr>wid = 3, w_sock = 7\<rparr> \<and>
   sent (tick demo_env (30010, TimerFired 3) during_read)
     = sent during_read @ [(30010, 7, OkMessages [])] \<and>
   resolved (st (tick demo_env (30010, TimerFired 3) during_read)) 3"
proof -
  let ?w = "\<lparr>wid = 3, w_sock = 7\<rparr>"
  let ?ch = "room\<lparr>ch_peers := [''kB'']\<rparr>"
  let ?msg = "FMsg ''room/s1'' (js ''hi'') ''peerB'' 7"
  let ?evs = "[Exec 0 8 Ping, PeerData 2 (js ''Hroom/s1'' @ [0x0A])]"
  let ?te = "(30010 :: int, TimerFired 3)"
  have m: "messages ?ch = []" by (simp add: room_def)
  have w: "?w = \<lparr>wid = next_id matched, w_sock = 7\<rparr>" by (simp add: matched_simps)
  have e: "hi = \<lparr>e_from = (if ''peerB'' \<noteq> [] then ''peerB'' else take 8 ''kB''),
                 e_data = js ''hi'', e_ts = 7\<rparr>" by (simp add: hi_def)
  have nt: "TimerFired 3 \<notin> set ?evs" by simp
  have na: "no_arrival demo_env 1 ?evs waiting" by (simp add: hello_again pinged_simps)
  have v1: "visited demo_env waiting" by (rule reachable_visited [OF waiting_reachable])
  have v2: "visited demo_env timed_out" by (rule reachable_visited [OF timed_out_reachable])
  have p1: "get_peer waiting ''kB'' \<noteq> None" by (simp add: get_peer_def waiting_simps)
  have p2: "get_peer timed_out ''kB'' \<noteq> None" by (simp add: get_peer_def timed_out_simps)
  have rs: "resolved timed_out 3" by (simp add: resolved_def timed_out_simps)
  have st0: "st before_read = matched" by (simp add: before_read_eq)
  have D: "(30010 :: int) = 10 + timer_delay (read_timeout None)"
    by (simp add: read_timeout_def timer_delay_def)
  have pu: "punctual demo_env
     (boot @ (10, Exec 0 7 (Read ''room'' True None)) # [(20, Exec 0 8 Ping)] @ [?te])
     (start ''d0'' 0)"
    using boot_punctual read_punctual
    by (simp only: punctual_append before_read_def append_Cons append_Nil)
  have ck: "clock during_read = 20" by (simp add: during_read_eq)
  have na2: "no_arrival demo_env 1 (map snd [(20 :: int, Exec 0 8 Ping)]) waiting" by simp
  note t = suspended_read_resolved_once [OF matched_reachable matched_channel m waiting_def w e,
      where evs = ?evs and s = waiting and ?m' = FOther and topic = "''room/s1''" and ?r' = 1
        and ?ch' = "room\<lparr>ch_peers := [''kB''], waiters := [?w]\<rparr>"
        and ?s' = timed_out and ?evs' = "[TimerFired 3]" and ?r2.0 = 1 and ?ch2.0 = ?ch
        and ?c0.0 = before_read and ?tes0.0 = boot and did = "''d0''" and \<tau>s = 0
        and ?c1.0 = during_read and ?\<tau>0.0 = 10 and rest = "[(20, Exec 0 8 Ping)]"
        and D = 30010 and te = ?te]
  note A = t [THEN conjunct1]
  note B = t [THEN conjunct2, THEN conjunct2, THEN conjunct1]
  note F = t [THEN conjunct2, THEN conjunct2, THEN conjunct2, THEN conjunct1]
  note G = t [THEN conjunct2, THEN conjunct2, THEN conjunct2, THEN conjunct2, THEN conjunct1]
  note T = t [THEN conjunct2, THEN conjunct2, THEN conjunct2, THEN conjunct2, THEN conjunct2]
  from A have a: "out waiting = out matched" "suspended waiting 1 ?w"
    "map_of (timers waiting) 3 = Some \<lparr>t_ch = 1, t_sock = 7, t_delay = 30000\<rparr>"
    by (simp_all add: read_timeout_def)
  from B nt na have b: "suspended (run demo_env ?evs waiting) 1 ?w" by simp
  from F v1 a(2) have f: "out (timerFired 3 waiting) = out waiting @ [(7, OkMessages [])]"
    "resolved (timerFired 3 waiting) 3"
    by simp_all
  from F v1 a(2) p1 hi_size waiting_topic
  have f2: "out (onPeerMsg ''kB'' ?msg waiting) = out waiting @ [(7, OkMessages [hi])]"
    "resolved (onPeerMsg ''kB'' ?msg waiting) 3"
    by (simp_all add: room_def del: onPeerMsg.simps)
  from G v2 rs have g: "timerFired 3 timed_out = timed_out" by simp
  from G v2 rs p2 hi_size timed_out_topic
  have g2: "out (onPeerMsg ''kB'' ?msg timed_out) = out timed_out"
    "heap (onPeerMsg ''kB'' ?msg timed_out) 1 = Some (room\<lparr>ch_peers := [''kB''], messages := [hi]\<rparr>)"
    by (simp_all add: room_def del: onPeerMsg.simps)
  from T before_read_def st0 during_read_def D pu
  have T': "(no_arrival demo_env 1 (map snd [(20 :: int, Exec 0 8 Ping)]) waiting \<and>
             clock during_read < 30010 \<longrightarrow> suspended (st during_read) 1 ?w) \<and>
            (suspended (st during_read) 1 ?w \<and> snd ?te = TimerFired (wid ?w) \<longrightarrow>
               fst ?te = 30010 \<and>
               sent (tick demo_env ?te during_read) = sent during_read @ [(30010, 7, OkMessages [])] \<and>
               resolved (st (tick demo_env ?te during_read)) (wid ?w))"
    by blast
  from T' na2 ck have t1: "suspended (st during_read) 1 ?w" by simp
  with T' have t2: "sent (tick demo_env ?te during_read) = sent during_read @ [(30010, 7, OkMessages [])]"
    "resolved (st (tick demo_env ?te during_read)) 3"
    by simp_all
  show ?thesis
    using matched_reachable matched_channel m a nt na b v1 f p1 hi_size waiting_topic f2 v2 rs g p2
      timed_out_topic g2 st0 pu ck t1 t2
    by (intro conjI)
qed

text \<open>
  Three runs on the sample state. A read with \<^verbatim>\<open>wait: true, timeout: 0\<close> writes no reply and
  arms its timer with 30000 ms, not with 0. A read made on socket 8 while the read of
  socket 7 is still suspended is not resolved by the message that arrives next: the entry
  goes to socket 7, and the read of socket 8 stays queued with its timer pending. A read
  with a timeout of 2147484 seconds is due one millisecond after it was made.
\<close>

theorem suspended_read_counterexample:
  "get_channel matched ''room'' = Some (1, room\<lparr>ch_peers := [''kB'']\<rparr>) \<and>
   messages (room\<lparr>ch_peers := [''kB'']\<rparr>) = [] \<and>
   out (exec demo_env 0 7 (Read ''room'' True (Some 0)) matched) = out matched \<and>
   timers (exec demo_env 0 7 (Read ''room'' True (Some 0)) matched)
     = [(3, \<lparr>t_ch = 1, t_sock = 7, t_delay = 30000\<rparr>)] \<and>
   timer_delay 30000 = 30000 \<and>
   get_channel waiting ''room''
     = Some (1, room\<lparr>ch_peers := [''kB''], waiters := [\<lparr>wid = 3, w_sock = 7\<rparr>]\<rparr>) \<and>
   messages (room\<lparr>ch_peers := [''kB''], waiters := [\<lparr>wid = 3, w_sock = 7\<rparr>]\<rparr>) = [] \<and>
   out (run demo_env [Exec 0 8 (Read ''room'' True None), PeerData 2 (js ''Mhi'' @ [0x0A])] waiting)
     = out waiting @ [(7, OkMessages [hi])] \<and>
   timers (run demo_env [Exec 0 8 (Read ''room'' True None), PeerData 2 (js ''Mhi'' @ [0x0A])] waiting)
     = [(4, \<lparr>t_ch = 1, t_sock = 8, t_delay = 30000\<rparr>)] \<and>
   heap (run demo_env [Exec 0 8 (Read ''room'' True None), PeerData 2 (js ''Mhi'' @ [0x0A])] waiting) 1
     = Some (room\<lparr>ch_peers := [''kB''], waiters := [\<lparr>wid = 4, w_sock = 8\<rparr>]\<rparr>) \<and>
   timers (exec demo_env 0 7 (Read ''room'' True (Some 2147484)) matched)
     = [(3, \<lparr>t_ch = 1, t_sock = 7, t_delay = 2147484000\<rparr>)] \<and>
   map_of (due (tick demo_env (10, Exec 0 7 (Read ''room'' True (Some 2147484))) before_read)) 3
     = Some 11"
proof -
  define s8 where "s8 = waiting\<lparr> timers := [(3, \<lparr>t_ch = 1, t_sock = 7, t_delay = 30000\<rparr>),
                           (4, \<lparr>t_ch = 1, t_sock = 8, t_delay = 30000\<rparr>)],
                heap := (\<lambda>_. None)(1 \<mapsto> room\<lparr>ch_peers := [''kB''],
                           waiters := [\<lparr>wid = 3, w_sock = 7\<rparr>, \<lparr>wid = 4, w_sock = 8\<rparr>]\<rparr>),
                next_id := 5 \<rparr>"
  have e8: "exec demo_env 0 8 (Read ''room'' True None) waiting = s8"
    unfolding s8_def by (rule second_read)
  let ?run = "run demo_env [Exec 0 8 (Read ''room'' True None), PeerData 2 (js ''Mhi'' @ [0x0A])] waiting"
  have 1: "get_channel matched ''room'' = Some (1, room\<lparr>ch_peers := [''kB'']\<rparr>)"
    "messages (room\<lparr>ch_peers := [''kB'']\<rparr>) = []"
    "out (exec demo_env 0 7 (Read ''room'' True (Some 0)) matched) = out matched"
    "timers (exec demo_env 0 7 (Read ''room'' True (Some 0)) matched)
     = [(3, \<lparr>t_ch = 1, t_sock = 7, t_delay = 30000\<rparr>)]"
    "timer_delay 30000 = 30000"
    by (simp_all add: matched_channel matched_simps read_timeout_def room_def timer_delay_def)
  have 2: "messages (room\<lparr>ch_peers := [''kB''], waiters := [\<lparr>wid = 3, w_sock = 7\<rparr>]\<rparr>) = []"
    by (simp add: room_def)
  have p: "pstore s8 2 = Some peerB" by (simp add: s8_def waiting_simps)
  have live: "\<not> conn_destroyed peerB" and b: "buf peerB = []" and k: "remoteKey peerB = ''kB''"
    by (simp_all add: peerB_def)
  have l: "length (buf peerB @ js ''Mhi'' @ [0x0A]) \<le> MAX_PEER_BUFFER"
    by (simp add: b js_def MAX_PEER_BUFFER_def)
  have nl: "0x0A \<notin> set (js ''Mhi'')" by (simp add: js_simps)
  have r: "?run = onData demo_env 2 (js ''Mhi'' @ [0x0A]) s8"
    by (simp add: run_def e8 del: exec.simps)
  have 3: "out ?run = out waiting @ [(7, OkMessages [hi])]"
    "timers ?run = [(4, \<lparr>t_ch = 1, t_sock = 8, t_delay = 30000\<rparr>)]"
    "heap ?run 1 = Some (room\<lparr>ch_peers := [''kB''], waiters := [\<lparr>wid = 4, w_sock = 8\<rparr>]\<rparr>)"
    unfolding r onData_live [OF p live l] b k append_Nil
    by (subst lines_loop_line [OF nl],
        simp add: s8_def lines_loop_done blank_def is_space_def js_simps demo_env_def set_buf_def
          waiting_simps get_peer_def find_topic_def route_def deliver_def reply_def
          room_def hi_def MAX_MESSAGE_SIZE_def unit_bytes_def high_surrogate_def)+
  have 4: "timers (exec demo_env 0 7 (Read ''room'' True (Some 2147484)) matched)
     = [(3, \<lparr>t_ch = 1, t_sock = 7, t_delay = 2147484000\<rparr>)]"
    by (simp add: matched_channel matched_simps read_timeout_def room_def)
  have 5: "map_of (due (tick demo_env (10, Exec 0 7 (Read ''room'' True (Some 2147484))) before_read)) 3
     = Some 11"
    by (simp add: before_read_eq tick_def Let_def matched_channel matched_simps read_timeout_def
        room_def timer_delay_def)
  from 1 waiting_channel 2 3 4 5 show ?thesis by (intro conjI)
qed

section \<open>Leaving a channel with suspended readers\<close>








section \<open>Size protections on a peer connection\<close>

lemma onPeerMsg_oversized:
  "byteLength big > MAX_MESSAGE_SIZE \<Longrightarrow> onPeerMsg key (FMsg topic big i ts) s = s"
  by (auto split: option.splits)

lemma destroy_set_buf:
  "pstore s c = Some p \<Longrightarrow>
   destroy c (set_buf c b s)
     = s\<lparr>pstore := (pstore s)(c \<mapsto> p\<lparr>buf := b, conn_writable := False, conn_destroyed := True\<rparr>)\<rparr>"
  by (simp add: destroy_def set_buf_def)

lemma drop_then_process:
  assumes nl: "0x0A \<notin> set l1" "0x0A \<notin> set l2"
    and nb: "\<not> blank l1" "\<not> blank l2"
    and p1: "parse E l1 = Some (FMsg topic big i ts)" and big: "byteLength big > MAX_MESSAGE_SIZE"
    and p2: "parse E l2 = Some m2"
  shows "lines_loop E c key (l1 @ 0x0A # l2 @ [0x0A]) s = onPeerMsg key m2 (set_buf c [] s)"
    and "lines_loop E c key (l1 @ [0x0A]) s = set_buf c [] s"
    and "lines_loop E c key (l2 @ [0x0A]) s = onPeerMsg key m2 (set_buf c [] s)"
  using nl nb p1 p2
  by (simp_all add: lines_loop_line lines_loop_done onPeerMsg_oversized [OF big] set_buf_twice
      del: onPeerMsg.simps)

lemma onData_overflow:
  "pstore s c = Some p \<Longrightarrow> \<not> conn_destroyed p \<Longrightarrow> length (buf p @ data) > MAX_PEER_BUFFER \<Longrightarrow>
   onData E c data s
     = s\<lparr>pstore := (pstore s)(c \<mapsto>
          p\<lparr>buf := buf p @ data, conn_writable := False, conn_destroyed := True\<rparr>)\<rparr>"
  by (simp add: onData_def Let_def destroy_set_buf)

lemma onData_destroyed:
  "pstore s c = Some p \<Longrightarrow> conn_destroyed p \<Longrightarrow> run E (map (PeerData c) ds) s = s"
  by (induction ds) (simp_all add: run_def onData_def)

text \<open>Chunks of a record that has not ended yet pile up in the buffer until it overflows.\<close>

lemma chunks_overflow:
  "pstore s c = Some p \<Longrightarrow> \<not> conn_destroyed p \<Longrightarrow> length (buf p) \<le> MAX_PEER_BUFFER \<Longrightarrow>
   0x0A \<notin> set (buf p @ concat ds) \<Longrightarrow> length (buf p @ concat ds) > MAX_PEER_BUFFER \<Longrightarrow>
   \<exists>n \<le> length ds. run E (map (PeerData c) ds) s
     = s\<lparr>pstore := (pstore s)(c \<mapsto>
          p\<lparr>buf := buf p @ concat (take n ds), conn_writable := False, conn_destroyed := True\<rparr>)\<rparr>"
proof (induction ds arbitrary: s p)
  case Nil
  then show ?case by simp
next
  case (Cons d ds)
  show ?case
  proof (cases "length (buf p @ d) > MAX_PEER_BUFFER")
    case True
    let ?p1 = "p\<lparr>buf := buf p @ d, conn_writable := False, conn_destroyed := True\<rparr>"
    let ?s1 = "s\<lparr>pstore := (pstore s)(c \<mapsto> ?p1)\<rparr>"
    from onData_overflow [OF Cons.prems(1,2) True] have 1: "onData E c d s = ?s1" .
    have 2: "run E (map (PeerData c) ds) ?s1 = ?s1"
      by (rule onData_destroyed [where p = ?p1]) simp_all
    have "run E (map (PeerData c) (d # ds)) s = run E (map (PeerData c) ds) ?s1"
      by (simp only: list.map run_Cons step.simps 1)
    also note 2
    finally have 3: "run E (map (PeerData c) (d # ds)) s = ?s1" .
    have t: "buf p @ concat (take 1 (d # ds)) = buf p @ d" by simp
    show ?thesis
    proof (intro exI [of _ 1] conjI)
      show "1 \<le> length (d # ds)" by simp
      show "run E (map (PeerData c) (d # ds)) s
       = s\<lparr>pstore := (pstore s)(c \<mapsto>
            p\<lparr>buf := buf p @ concat (take 1 (d # ds)), conn_writable := False, conn_destroyed := True\<rparr>)\<rparr>"
        unfolding t by (rule 3)
    qed
  next
    case False
    let ?p1 = "p\<lparr>buf := buf p @ d\<rparr>"
    let ?s1 = "s\<lparr>pstore := (pstore s)(c \<mapsto> ?p1)\<rparr>"
    from False have le: "length (buf p @ d) \<le> MAX_PEER_BUFFER" by simp
    from Cons.prems(4) have nl: "0x0A \<notin> set (buf p @ d)" by simp
    have 1: "onData E c d s = ?s1"
      using Cons.prems(1)
      by (simp add: onData_live [OF Cons.prems(1,2) le] lines_loop_done [OF nl] set_buf_def)
    have p1: "pstore ?s1 c = Some ?p1" by simp
    have "\<exists>n \<le> length ds. run E (map (PeerData c) ds) ?s1
       = ?s1\<lparr>pstore := (pstore ?s1)(c \<mapsto>
            ?p1\<lparr>buf := buf ?p1 @ concat (take n ds), conn_writable := False, conn_destroyed := True\<rparr>)\<rparr>"
      using Cons.prems le by (intro Cons.IH [OF p1]) simp_all
    then obtain n where n: "n \<le> length ds"
      and r: "run E (map (PeerData c) ds) ?s1
       = ?s1\<lparr>pstore := (pstore ?s1)(c \<mapsto>
            ?p1\<lparr>buf := buf ?p1 @ concat (take n ds), conn_writable := False, conn_destroyed := True\<rparr>)\<rparr>"
      by blast
    have "run E (map (PeerData c) (d # ds)) s = run E (map (PeerData c) ds) ?s1"
      by (simp only: list.map run_Cons step.simps 1)
    also note r
    finally have 3: "run E (map (PeerData c) (d # ds)) s
       = ?s1\<lparr>pstore := (pstore ?s1)(c \<mapsto>
            ?p1\<lparr>buf := buf ?p1 @ concat (take n ds), conn_writable := False, conn_destroyed := True\<rparr>)\<rparr>" .
    have t: "?s1\<lparr>pstore := (pstore ?s1)(c \<mapsto>
            ?p1\<lparr>buf := buf ?p1 @ concat (take n ds), conn_writable := False, conn_destroyed := True\<rparr>)\<rparr>
       = s\<lparr>pstore := (pstore s)(c \<mapsto>
            p\<lparr>buf := buf p @ concat (take (Suc n) (d # ds)), conn_writable := False, conn_destroyed := True\<rparr>)\<rparr>"
      by simp
    show ?thesis
    proof (intro exI [of _ "Suc n"] conjI)
      show "Suc n \<le> length (d # ds)" using n by simp
      show "run E (map (PeerData c) (d # ds)) s
       = s\<lparr>pstore := (pstore s)(c \<mapsto>
            p\<lparr>buf := buf p @ concat (take (Suc n) (d # ds)), conn_writable := False, conn_destroyed := True\<rparr>)\<rparr>"
        using 3 unfolding t .
    qed
  qed
qed

lemma route_effect:
  assumes f: "find_topic s topic = Some (r, ch)"
  shows "case waiters ch of
           w # ws \<Rightarrow> out (route key topic d i ts s)
                       = out s @ [(w_sock w, OkMessages
                           [\<lparr>e_from = (if i \<noteq> [] then i else take 8 key), e_data = d, e_ts = ts\<rparr>])] \<and>
                     heap (route key topic d i ts s) r = Some (ch\<lparr>waiters := ws\<rparr>)
         | [] \<Rightarrow> out (route key topic d i ts s) = out s \<and>
                 heap (route key topic d i ts s) r
                   = Some (ch\<lparr>messages := messages ch
                        @ [\<lparr>e_from = (if i \<noteq> [] then i else take 8 key), e_data = d, e_ts = ts\<rparr>]\<rparr>)"
  by (simp add: route_def f deliver_def reply_def split: list.splits)

text \<open>
  Claim C9, as amended. On a live connection, data that takes the unparsed buffer over
  \<open>MAX_PEER_BUFFER\<close> code units destroys that connection and changes nothing else (no
  channel, no other peer); a record that has not ended yet and is longer than the bound
  always ends so, however it is cut into chunks. While the buffer stays within the bound,
  a complete \<^verbatim>\<open>msg\<close> record whose data is over \<open>MAX_MESSAGE_SIZE\<close> bytes only empties the
  buffer: the connection is as it was, and a valid record after it, in a later chunk or in
  the same one, is handled by \<^verbatim>\<open>_onPeerMsg\<close> as if the oversized record had not been sent; a
  \<^verbatim>\<open>msg\<close> record for a joined channel then reaches the oldest waiter, or the buffer when
  there is none.
\<close>

theorem peer_size_protections:
  assumes p: "pstore s c = Some p" and live: "\<not> conn_destroyed p"
  shows
    "(length (buf p @ data) > MAX_PEER_BUFFER \<longrightarrow>
        onData E c data s
          = s\<lparr>pstore := (pstore s)(c \<mapsto>
               p\<lparr>buf := buf p @ data, conn_writable := False, conn_destroyed := True\<rparr>)\<rparr>) \<and>
     (length (buf p) \<le> MAX_PEER_BUFFER \<and> 0x0A \<notin> set (buf p @ concat ds) \<and>
      length (buf p @ concat ds) > MAX_PEER_BUFFER \<longrightarrow>
        (\<exists>n \<le> length ds. run E (map (PeerData c) ds) s
           = s\<lparr>pstore := (pstore s)(c \<mapsto>
                p\<lparr>buf := buf p @ concat (take n ds), conn_writable := False,
                  conn_destroyed := True\<rparr>)\<rparr>)) \<and>
     (length (buf p @ l1 @ 0x0A # l2 @ [0x0A]) \<le> MAX_PEER_BUFFER \<and>
      0x0A \<notin> set (buf p @ l1) \<and> 0x0A \<notin> set l2 \<and>
      \<not> blank (buf p @ l1) \<and> \<not> blank l2 \<and>
      parse E (buf p @ l1) = Some (FMsg topic big i ts) \<and> byteLength big > MAX_MESSAGE_SIZE \<and>
      parse E l2 = Some m2 \<longrightarrow>
        onData E c (l1 @ [0x0A]) s = s\<lparr>pstore := (pstore s)(c \<mapsto> p\<lparr>buf := []\<rparr>)\<rparr> \<and>
        onData E c (l2 @ [0x0A]) (onData E c (l1 @ [0x0A]) s)
          = onPeerMsg (remoteKey p) m2 (onData E c (l1 @ [0x0A]) s) \<and>
        onData E c (l1 @ 0x0A # l2 @ [0x0A]) s
          = onPeerMsg (remoteKey p) m2 (onData E c (l1 @ [0x0A]) s) \<and>
        (m2 = FMsg topic2 d2 i2 ts2 \<and> get_peer s (remoteKey p) \<noteq> None \<and>
         byteLength d2 \<le> MAX_MESSAGE_SIZE \<and> find_topic s topic2 = Some (r, ch) \<longrightarrow>
           (let s' = onData E c (l1 @ 0x0A # l2 @ [0x0A]) s;
                e = \<lparr>e_from = (if i2 \<noteq> [] then i2 else take 8 (remoteKey p)), e_data = d2, e_ts = ts2\<rparr>
            in case waiters ch of
                 w # ws \<Rightarrow> out s' = out s @ [(w_sock w, OkMessages [e])] \<and>
                           heap s' r = Some (ch\<lparr>waiters := ws\<rparr>)
               | [] \<Rightarrow> out s' = out s \<and>
                       heap s' r = Some (ch\<lparr>messages := messages ch @ [e]\<rparr>))))"
proof (intro conjI impI)
  assume "length (buf p @ data) > MAX_PEER_BUFFER"
  then show "onData E c data s
          = s\<lparr>pstore := (pstore s)(c \<mapsto>
               p\<lparr>buf := buf p @ data, conn_writable := False, conn_destroyed := True\<rparr>)\<rparr>"
    by (rule onData_overflow [OF p live])
next
  assume "length (buf p) \<le> MAX_PEER_BUFFER \<and> 0x0A \<notin> set (buf p @ concat ds) \<and>
      length (buf p @ concat ds) > MAX_PEER_BUFFER"
  then show "\<exists>n \<le> length ds. run E (map (PeerData c) ds) s
           = s\<lparr>pstore := (pstore s)(c \<mapsto>
                p\<lparr>buf := buf p @ concat (take n ds), conn_writable := False,
                  conn_destroyed := True\<rparr>)\<rparr>"
    using chunks_overflow [OF p live, of ds E] by blast
next
  assume a: "length (buf p @ l1 @ 0x0A # l2 @ [0x0A]) \<le> MAX_PEER_BUFFER \<and>
      0x0A \<notin> set (buf p @ l1) \<and> 0x0A \<notin> set l2 \<and>
      \<not> blank (buf p @ l1) \<and> \<not> blank l2 \<and>
      parse E (buf p @ l1) = Some (FMsg topic big i ts) \<and> byteLength big > MAX_MESSAGE_SIZE \<and>
      parse E l2 = Some m2"
  then have len: "length (buf p @ l1 @ 0x0A # l2 @ [0x0A]) \<le> MAX_PEER_BUFFER"
    and nl: "0x0A \<notin> set (buf p @ l1)" "0x0A \<notin> set l2"
    and nb: "\<not> blank (buf p @ l1)" "\<not> blank l2"
    and p1: "parse E (buf p @ l1) = Some (FMsg topic big i ts)"
    and big: "byteLength big > MAX_MESSAGE_SIZE" and p2: "parse E l2 = Some m2"
    by blast+
  note dp = drop_then_process [OF nl nb p1 big p2]
  let ?s0 = "s\<lparr>pstore := (pstore s)(c \<mapsto> p\<lparr>buf := []\<rparr>)\<rparr>"
  have sb: "set_buf c b s = s\<lparr>pstore := (pstore s)(c \<mapsto> p\<lparr>buf := b\<rparr>)\<rparr>" for b
    using p by (simp add: set_buf_def)
  have p0: "pstore ?s0 c = Some (p\<lparr>buf := []\<rparr>)" by simp
  have live0: "\<not> conn_destroyed (p\<lparr>buf := []\<rparr>)" using live by simp
  have sb0: "set_buf c [] ?s0 = ?s0" by (simp add: set_buf_def)
  have l1: "length (buf p @ l1 @ [0x0A]) \<le> MAX_PEER_BUFFER"
    and l2: "length (buf (p\<lparr>buf := []\<rparr>) @ l2 @ [0x0A]) \<le> MAX_PEER_BUFFER"
    using len by simp_all
  have "onData E c (l1 @ [0x0A]) s
      = lines_loop E c (remoteKey p) ((buf p @ l1) @ [0x0A]) (set_buf c (buf p @ l1 @ [0x0A]) s)"
    using onData_live [OF p live l1, of E] by simp
  also have "\<dots> = set_buf c [] (set_buf c (buf p @ l1 @ [0x0A]) s)" by (rule dp(2))
  also have "\<dots> = ?s0" by (simp only: set_buf_twice) (rule sb)
  finally have 1: "onData E c (l1 @ [0x0A]) s = ?s0" .
  have "onData E c (l1 @ 0x0A # l2 @ [0x0A]) s
      = lines_loop E c (remoteKey p) ((buf p @ l1) @ 0x0A # l2 @ [0x0A])
          (set_buf c (buf p @ l1 @ 0x0A # l2 @ [0x0A]) s)"
    using onData_live [OF p live len, of E] by simp
  also have "\<dots> = onPeerMsg (remoteKey p) m2
                      (set_buf c [] (set_buf c (buf p @ l1 @ 0x0A # l2 @ [0x0A]) s))"
    by (rule dp(1))
  also have "\<dots> = onPeerMsg (remoteKey p) m2 ?s0" by (simp only: set_buf_twice) (simp only: sb)
  finally have 2: "onData E c (l1 @ 0x0A # l2 @ [0x0A]) s = onPeerMsg (remoteKey p) m2 ?s0" .
  have "onData E c (l2 @ [0x0A]) ?s0
      = lines_loop E c (remoteKey p) (l2 @ [0x0A]) (set_buf c (l2 @ [0x0A]) ?s0)"
    using onData_live [OF p0 live0 l2, of E] by simp
  also have "\<dots> = onPeerMsg (remoteKey p) m2 (set_buf c [] (set_buf c (l2 @ [0x0A]) ?s0))"
    by (rule dp(3))
  also have "\<dots> = onPeerMsg (remoteKey p) m2 ?s0" by (simp only: set_buf_twice sb0)
  finally have 3: "onData E c (l2 @ [0x0A]) ?s0 = onPeerMsg (remoteKey p) m2 ?s0" .
  show "onData E c (l1 @ [0x0A]) s = ?s0" by (rule 1)
  show "onData E c (l2 @ [0x0A]) (onData E c (l1 @ [0x0A]) s)
          = onPeerMsg (remoteKey p) m2 (onData E c (l1 @ [0x0A]) s)"
    unfolding 1 by (rule 3)
  show "onData E c (l1 @ 0x0A # l2 @ [0x0A]) s
          = onPeerMsg (remoteKey p) m2 (onData E c (l1 @ [0x0A]) s)"
    unfolding 1 by (rule 2)
  assume b: "m2 = FMsg topic2 d2 i2 ts2 \<and> get_peer s (remoteKey p) \<noteq> None \<and>
         byteLength d2 \<le> MAX_MESSAGE_SIZE \<and> find_topic s topic2 = Some (r, ch)"
  then have m2: "m2 = FMsg topic2 d2 i2 ts2" and gp: "get_peer s (remoteKey p) \<noteq> None"
    and sz: "byteLength d2 \<le> MAX_MESSAGE_SIZE" and f: "find_topic s topic2 = Some (r, ch)"
    by blast+
  from gp have gp0: "get_peer ?s0 (remoteKey p) \<noteq> None"
    by (auto simp: get_peer_def split: option.splits if_splits)
  from f have f0: "find_topic ?s0 topic2 = Some (r, ch)" by (simp add: find_topic_def)
  have "onData E c (l1 @ 0x0A # l2 @ [0x0A]) s = route (remoteKey p) topic2 d2 i2 ts2 ?s0"
    unfolding 2 m2 using gp0 sz by (auto split: option.splits)
  then show "let s' = onData E c (l1 @ 0x0A # l2 @ [0x0A]) s;
                e = \<lparr>e_from = (if i2 \<noteq> [] then i2 else take 8 (remoteKey p)), e_data = d2, e_ts = ts2\<rparr>
            in case waiters ch of
                 w # ws \<Rightarrow> out s' = out s @ [(w_sock w, OkMessages [e])] \<and>
                           heap s' r = Some (ch\<lparr>waiters := ws\<rparr>)
               | [] \<Rightarrow> out s' = out s \<and>
                       heap s' r = Some (ch\<lparr>messages := messages ch @ [e]\<rparr>)"
    using route_effect [OF f0, of "remoteKey p" d2 i2 ts2]
    by (cases "waiters ch") (simp_all add: Let_def split del: if_split)
qed


theorem peer_size_protections_witness:
  "pstore matched 2 = Some peerB \<and> \<not> conn_destroyed peerB \<and>
   length (buf peerB @ flood) > MAX_PEER_BUFFER \<and>
   onData demo_env 2 flood matched
     = matched\<lparr>pstore := (pstore matched)(2 \<mapsto>
         peerB\<lparr>buf := flood, conn_writable := False, conn_destroyed := True\<rparr>)\<rparr> \<and>
   0x0A \<notin> set (buf peerB @ concat [js ''M'', flood]) \<and>
   length (buf peerB @ concat [js ''M'', flood]) > MAX_PEER_BUFFER \<and>
   (\<exists>n \<le> 2. run demo_env [PeerData 2 (js ''M''), PeerData 2 flood] matched
     = matched\<lparr>pstore := (pstore matched)(2 \<mapsto>
         peerB\<lparr>buf := concat (take n [js ''M'', flood]), conn_writable := False,
           conn_destroyed := True\<rparr>)\<rparr>) \<and>
   parse demo_env (0x4D # oversized) = Some (FMsg ''room/s1'' oversized ''peerB'' 7) \<and>
   byteLength oversized > MAX_MESSAGE_SIZE \<and>
   length (0x4D # oversized @ 0x0A # js ''Mhi'' @ [0x0A]) \<le> MAX_PEER_BUFFER \<and>
   onData demo_env 2 (0x4D # oversized @ [0x0A]) matched = matched \<and>
   find_topic matched ''room/s1'' = Some (1, room\<lparr>ch_peers := [''kB'']\<rparr>) \<and>
   out (onData demo_env 2 (0x4D # oversized @ 0x0A # js ''Mhi'' @ [0x0A]) matched) = out matched \<and>
   heap (onData demo_env 2 (0x4D # oversized @ 0x0A # js ''Mhi'' @ [0x0A]) matched) 1
     = Some (room\<lparr>ch_peers := [''kB''],
                   messages := [\<lparr>e_from = ''peerB'', e_data = js ''hi'', e_ts = 7\<rparr>]\<rparr>) \<and>
   parse demo_env (0x4D # euros) = Some (FMsg ''room/s1'' euros ''peerB'' 7) \<and>
   byteLength euros > MAX_PEER_BUFFER \<and> byteLength euros > MAX_MESSAGE_SIZE \<and>
   length (0x4D # euros @ 0x0A # js ''Mhi'' @ [0x0A]) \<le> MAX_PEER_BUFFER \<and>
   onData demo_env 2 (0x4D # euros @ [0x0A]) matched = matched"
proof -
  let ?rec = "0x4D # oversized"
  let ?ch = "room\<lparr>ch_peers := [''kB'']\<rparr>"
  have p: "pstore matched 2 = Some peerB" by (simp add: matched_simps)
  have live: "\<not> conn_destroyed peerB" by (simp add: peerB_def)
  have b: "buf peerB = []" by (simp add: peerB_def)
  have k: "remoteKey peerB = ''kB''" by (simp add: peerB_def)
  have f: "length (buf peerB @ flood) > MAX_PEER_BUFFER" by (simp add: b flood_def)
  have lb: "length (buf peerB) \<le> MAX_PEER_BUFFER" by (simp add: b)
  have cn: "0x0A \<notin> set (buf peerB @ concat [js ''M'', flood])"
    by (simp add: b flood_def js_simps)
  have cl: "length (buf peerB @ concat [js ''M'', flood]) > MAX_PEER_BUFFER"
    by (simp add: b flood_def)
  have lo: "length oversized = Suc MAX_MESSAGE_SIZE" by (simp add: oversized_def)
  have big: "byteLength oversized > MAX_MESSAGE_SIZE" by (simp add: oversized_def byteLength_ascii)
  have lh: "length (js ''Mhi'') = 3" by (simp add: js_def)
  have "length (buf peerB @ ?rec @ 0x0A # js ''Mhi'' @ [0x0A]) = MAX_MESSAGE_SIZE + 7"
    by (simp add: b lo lh)
  then have len: "length (buf peerB @ ?rec @ 0x0A # js ''Mhi'' @ [0x0A]) \<le> MAX_PEER_BUFFER"
    by (simp only: MAX_MESSAGE_SIZE_def MAX_PEER_BUFFER_def)
  have nl: "0x0A \<notin> set (buf peerB @ ?rec)" "0x0A \<notin> set (js ''Mhi'')"
    by (simp_all add: b oversized_def js_simps)
  have nb: "\<not> blank (buf peerB @ ?rec)" "\<not> blank (js ''Mhi'')"
    by (simp_all add: b blank_def is_space_def js_simps)
  have p1: "parse demo_env (buf peerB @ ?rec) = Some (FMsg ''room/s1'' oversized ''peerB'' 7)"
    by (simp add: b demo_env_def)
  have p2: "parse demo_env (js ''Mhi'') = Some (FMsg ''room/s1'' (js ''hi'') ''peerB'' 7)"
    by (simp add: demo_env_def js_simps)
  have gp: "get_peer matched (remoteKey peerB) \<noteq> None" by (simp add: k matched_peer)
  have sz: "byteLength (js ''hi'') \<le> MAX_MESSAGE_SIZE"
    by (simp add: MAX_MESSAGE_SIZE_def js_simps unit_bytes_def high_surrogate_def)
  have w: "waiters ?ch = []" "messages ?ch = []" by (simp_all add: room_def)
  have m: "matched\<lparr>pstore := (pstore matched)(2 \<mapsto> peerB\<lparr>buf := []\<rparr>)\<rparr> = matched"
    by (simp add: matched_simps peerB_def)
  note t = peer_size_protections [OF p live, where E = demo_env and data = flood
      and ds = "[js ''M'', flood]" and ?l1.0 = ?rec
      and ?l2.0 = "js ''Mhi''" and topic = "''room/s1''" and big = oversized and i = "''peerB''"
      and ts = 7 and ?m2.0 = "FMsg ''room/s1'' (js ''hi'') ''peerB'' 7"
      and ?topic2.0 = "''room/s1''" and ?d2.0 = "js ''hi''" and ?i2.0 = "''peerB''" and ?ts2.0 = 7
      and r = 1 and ch = ?ch]
  from t f have 1: "onData demo_env 2 flood matched
     = matched\<lparr>pstore := (pstore matched)(2 \<mapsto>
         peerB\<lparr>buf := flood, conn_writable := False, conn_destroyed := True\<rparr>)\<rparr>"
    by (simp only: b append_Nil)
  from t lb cn cl have "\<exists>n \<le> length [js ''M'', flood].
     run demo_env (map (PeerData 2) [js ''M'', flood]) matched
     = matched\<lparr>pstore := (pstore matched)(2 \<mapsto>
         peerB\<lparr>buf := buf peerB @ concat (take n [js ''M'', flood]), conn_writable := False,
           conn_destroyed := True\<rparr>)\<rparr>"
    by blast
  then have 2: "\<exists>n \<le> 2. run demo_env [PeerData 2 (js ''M''), PeerData 2 flood] matched
     = matched\<lparr>pstore := (pstore matched)(2 \<mapsto>
         peerB\<lparr>buf := concat (take n [js ''M'', flood]), conn_writable := False,
           conn_destroyed := True\<rparr>)\<rparr>"
    by (simp only: b append_Nil list.map length_Cons list.size One_nat_def [symmetric])
       (simp only: One_nat_def Suc_1 [symmetric] add_0)
  from t len nl nb p1 big p2
  have 3: "onData demo_env 2 (?rec @ [0x0A]) matched
             = matched\<lparr>pstore := (pstore matched)(2 \<mapsto> peerB\<lparr>buf := []\<rparr>)\<rparr>"
    by blast
  from t len nl nb p1 big p2 gp sz matched_topic
  have "let s' = onData demo_env 2 (?rec @ 0x0A # js ''Mhi'' @ [0x0A]) matched;
            e = \<lparr>e_from = (if ''peerB'' \<noteq> [] then ''peerB'' else take 8 (remoteKey peerB)),
                 e_data = js ''hi'', e_ts = 7\<rparr>
        in case waiters ?ch of
             w # ws \<Rightarrow> out s' = out matched @ [(w_sock w, OkMessages [e])] \<and>
                       heap s' 1 = Some (?ch\<lparr>waiters := ws\<rparr>)
           | [] \<Rightarrow> out s' = out matched \<and>
                   heap s' 1 = Some (?ch\<lparr>messages := messages ?ch @ [e]\<rparr>)"
    by blast
  then have 4: "out (onData demo_env 2 (0x4D # oversized @ 0x0A # js ''Mhi'' @ [0x0A]) matched) = out matched"
    and 5: "heap (onData demo_env 2 (0x4D # oversized @ 0x0A # js ''Mhi'' @ [0x0A]) matched) 1
     = Some (room\<lparr>ch_peers := [''kB''],
                   messages := [\<lparr>e_from = ''peerB'', e_data = js ''hi'', e_ts = 7\<rparr>]\<rparr>)"
    by (simp_all add: Let_def w)
  from 3 have 6: "onData demo_env 2 (0x4D # oversized @ [0x0A]) matched = matched"
    by (simp only: m append_Cons)
  from p1 have 7: "parse demo_env (0x4D # oversized) = Some (FMsg ''room/s1'' oversized ''peerB'' 7)"
    by (simp only: b append_Nil)
  from len have 8: "length (0x4D # oversized @ 0x0A # js ''Mhi'' @ [0x0A]) \<le> MAX_PEER_BUFFER"
    by (simp only: b append_Nil append_Cons)
  let ?eur = "0x4D # euros"
  have eb: "byteLength euros > MAX_PEER_BUFFER" "byteLength euros > MAX_MESSAGE_SIZE"
    by (simp_all add: euros_size MAX_PEER_BUFFER_def MAX_MESSAGE_SIZE_def)
  have "length (buf peerB @ ?eur @ 0x0A # js ''Mhi'' @ [0x0A]) = MAX_PEER_BUFFER div 2 + 6"
    by (simp add: b euros_size lh)
  then have elen: "length (buf peerB @ ?eur @ 0x0A # js ''Mhi'' @ [0x0A]) \<le> MAX_PEER_BUFFER"
    by (simp add: MAX_PEER_BUFFER_def)
  have enl: "0x0A \<notin> set (buf peerB @ ?eur)" by (simp add: b euros_def)
  have enb: "\<not> blank (buf peerB @ ?eur)" by (simp add: b blank_def is_space_def)
  have ep: "parse demo_env (buf peerB @ ?eur) = Some (FMsg ''room/s1'' euros ''peerB'' 7)"
    by (simp add: b demo_env_def)
  note t' = peer_size_protections [OF p live, where E = demo_env and ?l1.0 = ?eur
      and ?l2.0 = "js ''Mhi''" and topic = "''room/s1''" and big = euros and i = "''peerB''"
      and ts = 7 and ?m2.0 = "FMsg ''room/s1'' (js ''hi'') ''peerB'' 7"]
  from t' elen enl nl(2) enb nb(2) ep eb(2) p2
  have "onData demo_env 2 (?eur @ [0x0A]) matched
             = matched\<lparr>pstore := (pstore matched)(2 \<mapsto> peerB\<lparr>buf := []\<rparr>)\<rparr>"
    by blast
  then have 9: "onData demo_env 2 (0x4D # euros @ [0x0A]) matched = matched"
    by (simp only: m append_Cons)
  from ep have 10: "parse demo_env (0x4D # euros) = Some (FMsg ''room/s1'' euros ''peerB'' 7)"
    by (simp only: b append_Nil)
  from elen have 11: "length (0x4D # euros @ 0x0A # js ''Mhi'' @ [0x0A]) \<le> MAX_PEER_BUFFER"
    by (simp only: b append_Nil append_Cons)
  show ?thesis
    using p live f 1 cn cl 2 7 big 8 6 matched_topic 4 5 10 eb 11 9 by (intro conjI)
qed

text \<open>A single \<^verbatim>\<open>msg\<close> record whose data is over the bound of the unparsed buffer, hence over
  the maximum message size, sent to the live connection of the sample state: the
  connection is destroyed, not kept.\<close>

theorem oversized_record_counterexample:
  "pstore matched 2 = Some peerB \<and> \<not> conn_destroyed peerB \<and> conn_writable peerB \<and>
   parse demo_env (0x4D # flood) = Some (FMsg ''room/s1'' flood ''peerB'' 7) \<and>
   byteLength flood > MAX_MESSAGE_SIZE \<and>
   onData demo_env 2 (0x4D # flood @ [0x0A]) matched
     = matched\<lparr>pstore := (pstore matched)(2 \<mapsto>
         peerB\<lparr>buf := 0x4D # flood @ [0x0A], conn_writable := False, conn_destroyed := True\<rparr>)\<rparr>"
proof -
  have p: "pstore matched 2 = Some peerB" by (simp add: matched_simps)
  have live: "\<not> conn_destroyed peerB" "conn_writable peerB" "buf peerB = []"
    by (simp_all add: peerB_def)
  have "byteLength flood = Suc MAX_PEER_BUFFER" by (simp add: flood_def byteLength_ascii)
  then have big: "byteLength flood > MAX_MESSAGE_SIZE"
    by (simp add: MAX_PEER_BUFFER_def MAX_MESSAGE_SIZE_def)
  have f: "length (buf peerB @ 0x4D # flood @ [0x0A]) > MAX_PEER_BUFFER"
    by (simp add: live flood_def)
  have 1: "parse demo_env (0x4D # flood) = Some (FMsg ''room/s1'' flood ''peerB'' 7)"
    by (simp add: demo_env_def)
  from onData_overflow [OF p live(1) f, of demo_env]
  have 2: "onData demo_env 2 (0x4D # flood @ [0x0A]) matched
     = matched\<lparr>pstore := (pstore matched)(2 \<mapsto>
         peerB\<lparr>buf := 0x4D # flood @ [0x0A], conn_writable := False, conn_destroyed := True\<rparr>)\<rparr>"
    by (simp only: live append_Nil)
  from p live 1 big 2 show ?thesis by blast
qed

end
